theory Spec2Isabelle
  imports Complex_Main "HOL-Library.Log_Nat" "HOL-Library.Multiset"
begin

section \<open>Proxy-Checker: the verification engine and the source aggregator\<close>

text \<open>
  A shallow embedding of \<^verbatim>\<open>src/main/checker.ts\<close> (class \<^verbatim>\<open>ProxyChecker\<close>) and of
  \<^verbatim>\<open>parseFromSources\<close> in \<^verbatim>\<open>src/main/parsers/index.ts\<close>.

  The program runs on the JavaScript event loop: code between two \<^verbatim>\<open>await\<close>s runs to
  completion, and at an \<^verbatim>\<open>await\<close> of a network request the function is suspended until
  the reply arrives. The embedding therefore is a deterministic state machine. Each
  synchronous block of the source is one function on the state, and the environment
  (the network, the clock, the user pressing "stop") is the list of events fed to it.

  Strings are \<open>char list\<close>; case folding is done on the ASCII letters only.
\<close>

subsection \<open>JavaScript numbers: the arithmetic of the percent field\<close>

text \<open>
  \<^verbatim>\<open>Math.round((this.checked / this.total) * 100)\<close> is evaluated on IEEE 754 doubles:
  the quotient is rounded to the nearest double (ties to even), and so is the product.
  \<open>fl\<close> is that rounding for non-negative rationals in the normal range (no overflow
  and no subnormal numbers occur for counters dividing each other): a double has a
  53 bit significand, so in the binade \<open>2^e \<le> q < 2^(e+1)\<close> the doubles are the multiples
  of \<open>2^(e-52)\<close>. \<^verbatim>\<open>Math.round\<close> returns the nearest integer, a tie going up.
\<close>

definition pow2 :: "int \<Rightarrow> rat" where
  "pow2 e = (if 0 \<le> e then 2 ^ nat e else 1 / 2 ^ nat (- e))"

definition binexp :: "rat \<Rightarrow> int" where
  "binexp q = (let (a, b) = quotient_of q; e0 = bitlen a - bitlen b
               in if pow2 e0 \<le> q then e0 else e0 - 1)"

definition round_even :: "rat \<Rightarrow> int" where
  "round_even m = (let f = \<lfloor>m\<rfloor>; r = m - of_int f
                   in if r < 1 / 2 then f else if 1 / 2 < r then f + 1
                      else if even f then f else f + 1)"

definition fl :: "rat \<Rightarrow> rat" where
  "fl q = (if q = 0 then 0
           else let u = pow2 (binexp q - 52) in of_int (round_even (q / u)) * u)"

definition Math_round :: "rat \<Rightarrow> int" where
  "Math_round x = \<lfloor>x + 1 / 2\<rfloor>"

text \<open>\<^verbatim>\<open>this.total > 0 ? Math.round((this.checked / this.total) * 100) : 0\<close>\<close>

definition percent_of :: "nat \<Rightarrow> nat \<Rightarrow> int" where
  "percent_of c t = (if 0 < t then Math_round (fl (fl (of_nat c / of_nat t) * 100)) else 0)"

subsection \<open>Strings: \<^verbatim>\<open>toLowerCase\<close>, \<^verbatim>\<open>includes\<close>, \<^verbatim>\<open>JSON.stringify\<close>\<close>

definition lower_char :: "char \<Rightarrow> char" where
  "lower_char c = (let n = (of_char c :: nat) in if 65 \<le> n \<and> n \<le> 90 then char_of (n + 32) else c)"

definition toLowerCase :: "string \<Rightarrow> string" where
  "toLowerCase s = map lower_char s"

fun startsWith :: "string \<Rightarrow> string \<Rightarrow> bool" where
  "startsWith hay [] = True"
| "startsWith [] (c # cs) = False"
| "startsWith (h # hs) (c # cs) = (h = c \<and> startsWith hs cs)"

text \<open>\<^verbatim>\<open>hay.includes(needle)\<close>: the needle occurs as a contiguous substring.\<close>

fun str_includes :: "string \<Rightarrow> string \<Rightarrow> bool" where
  "str_includes [] needle = (needle = [])"
| "str_includes (h # hs) needle = (startsWith (h # hs) needle \<or> str_includes hs needle)"

definition hex_digit :: "nat \<Rightarrow> char" where
  "hex_digit n = (if n < 10 then char_of (48 + n) else char_of (87 + n))"

text \<open>
  The escaping of one character inside a JSON string literal (\<^verbatim>\<open>QuoteJSONString\<close>):
  the quote and the backslash get a backslash, the control characters their short escape
  or \<^verbatim>\<open>\u00xx\<close>, every other character stands for itself.
\<close>

definition json_escape_char :: "char \<Rightarrow> string" where
  "json_escape_char c =
     (let n = (of_char c :: nat) in
      if n = 34 then [CHR 0x5C, CHR 0x22]
      else if n = 92 then [CHR 0x5C, CHR 0x5C]
      else if n = 8 then [CHR 0x5C, CHR ''b'']
      else if n = 9 then [CHR 0x5C, CHR ''t'']
      else if n = 10 then [CHR 0x5C, CHR ''n'']
      else if n = 12 then [CHR 0x5C, CHR ''f'']
      else if n = 13 then [CHR 0x5C, CHR ''r'']
      else if n < 32 then [CHR 0x5C, CHR ''u'', CHR ''0'', CHR ''0'', hex_digit (n div 16), hex_digit (n mod 16)]
      else [c])"

definition json_string :: "string \<Rightarrow> string" where
  "json_string s = [CHR 0x22] @ concat (map json_escape_char s) @ [CHR 0x22]"

definition json_member :: "string \<times> string \<Rightarrow> string" where
  "json_member kv = json_string (fst kv) @ '':'' @ json_string (snd kv)"

fun json_members :: "(string \<times> string) list \<Rightarrow> string" where
  "json_members [] = []"
| "json_members [kv] = json_member kv"
| "json_members (kv # kvs) = json_member kv @ '','' @ json_members kvs"

text \<open>
  \<^verbatim>\<open>JSON.stringify(headers)\<close> for a headers object whose values are strings (what the
  echo service returns); the list gives the object's own properties in enumeration
  order.
\<close>

definition JSON_stringify :: "(string \<times> string) list \<Rightarrow> string" where
  "JSON_stringify obj = ''{'' @ json_members obj @ ''}''"

text \<open>\<^verbatim>\<open>headers[h]\<close> is truthy: the property exists and its string is not empty.\<close>

definition truthy_prop :: "(string \<times> string) list \<Rightarrow> string \<Rightarrow> bool" where
  "truthy_prop obj h = (case map_of obj h of None \<Rightarrow> False | Some v \<Rightarrow> v \<noteq> [])"

subsection \<open>The anonymity classifier\<close>

datatype anonymity = Elite | Anonymous | Transparent | Unknown

definition proxyHeaders :: "string list" where
  "proxyHeaders = [''x-forwarded-for'', ''x-real-ip'', ''via'', ''x-proxy'', ''forwarded'',
                   ''proxy-connection'']"

text \<open>
  The body of the \<^verbatim>\<open>try\<close> block of \<^verbatim>\<open>checkAnonymity\<close> once the response is there:
  \<open>myIp\<close> is \<^verbatim>\<open>this.myIp\<close>, \<open>headers\<close> is \<^verbatim>\<open>response.data?.headers || {}\<close>.
\<close>

definition classify :: "string \<Rightarrow> (string \<times> string) list \<Rightarrow> anonymity" where
  "classify myIp headers =
     (let headerStr = toLowerCase (JSON_stringify headers) in
      if myIp \<noteq> [] \<and> str_includes headerStr (toLowerCase myIp) then Transparent
      else if list_ex (\<lambda>h. truthy_prop headers h \<or> truthy_prop headers (toLowerCase h)
                            \<or> str_includes headerStr h) proxyHeaders
      then Anonymous
      else Elite)"

subsection \<open>Number to string\<close>

text \<open>The decimal rendering of an integer, as a template literal does it.\<close>

definition digit_char :: "nat \<Rightarrow> char" where
  "digit_char d = char_of (48 + d)"

fun show_nat :: "nat \<Rightarrow> string" where
  "show_nat n = (if n < 10 then [digit_char n] else show_nat (n div 10) @ [digit_char (n mod 10)])"

declare show_nat.simps [simp del]

definition show_int :: "int \<Rightarrow> string" where
  "show_int i = (if i < 0 then ''-'' @ show_nat (nat (- i)) else show_nat (nat i))"

subsection \<open>The data of the checker\<close>

record ProxyToCheck =
  pc_id :: int
  pc_ip :: string
  pc_port :: int
  pc_type :: string
  pc_username :: "string option"
  pc_password :: "string option"

datatype status = Working | Dead

text \<open>
  \<^verbatim>\<open>CheckResult\<close>. Its fields \<^verbatim>\<open>country\<close> and \<^verbatim>\<open>country_code\<close> are never assigned by the
  checker and are left out; an absent optional field is \<open>None\<close>.
\<close>

record CheckResult =
  cr_id :: int
  cr_ip :: string
  cr_port :: int
  cr_type :: string
  cr_status :: status
  cr_latency :: "int option"
  cr_anonymity :: "anonymity option"

record CheckerOptions =
  opt_threads :: int
  opt_timeout :: int
  opt_testUrl :: string
  opt_deleteDead :: bool
  opt_checkAnonymity :: bool

text \<open>
  The lines of the log. The source renders each as text behind a time stamp; here an
  entry is the time of the call and the message with the values it interpolates.
\<close>

datatype log_msg =
    LogStopped
  | LogStart nat
  | LogThreads int int
  | LogUrl string
  | LogDeleteDead bool
  | LogCheckAnonymity bool
  | LogDetecting
  | LogMyIp string
  | LogDetectFailed
  | LogProbe string int string
  | LogWorkingAnon string int int anonymity
  | LogWorking string int int
  | LogHttp string int int
  | LogError string int string
  | LogDeleting nat
  | LogDeleted nat
  | LogFinished nat nat

type_synonym log_entry = "int \<times> log_msg"

text \<open>What the network answers to one \<^verbatim>\<open>axios.get\<close>: an exception or a response.\<close>

record js_error =
  err_code :: "string option"
  err_message :: "string option"

record http_response =
  resp_status :: int
  resp_origin :: "string option"
  resp_headers :: "(string \<times> string) list option"

datatype reply = Threw js_error | Response http_response

text \<open>The calls made to the database module.\<close>

record proxy_update =
  up_status :: status
  up_latency :: "int option"
  up_anonymity :: "anonymity option"
  up_last_checked :: int

datatype db_call = UpdateProxy int proxy_update | DeleteProxies "int list"

text \<open>The requests sent to the network.\<close>

datatype request = GetMyIp | GetTest ProxyToCheck | GetHeaders ProxyToCheck

record last_result =
  lr_proxy :: string
  lr_status :: status
  lr_latency :: "int option"
  lr_anonymity :: "anonymity option"

record progress =
  p_checked :: nat
  p_total :: nat
  p_working :: nat
  p_dead :: nat
  p_deleted :: nat
  p_percent :: int
  p_logs :: "log_entry list"
  p_lastResult :: "last_result option"

text \<open>
  One call of \<^verbatim>\<open>processNext\<close> is a coroutine. Between two events it is suspended at the
  \<^verbatim>\<open>await\<close> of the test request (with the endpoint and \<^verbatim>\<open>startTime\<close>), or at the
  \<^verbatim>\<open>await\<close> inside \<^verbatim>\<open>checkAnonymity\<close> (with the result built so far and the latency),
  or it has returned.
\<close>

datatype worker =
    AwaitProbe ProxyToCheck int
  | AwaitAnon ProxyToCheck CheckResult int
  | Returned

datatype phase = Idle | Detecting | Running | Finished

text \<open>
  The state: the fields of the \<^verbatim>\<open>ProxyChecker\<close> instance (\<open>options\<close> to \<open>myIp\<close>), the
  locals of the running \<^verbatim>\<open>checkAll\<close> (\<open>proxies\<close> to \<open>phase\<close>), the clock, and what the run
  has done to the outside (\<open>db\<close>, \<open>emitted\<close>, \<open>requests\<close>).
\<close>

record checker =
  options :: CheckerOptions
  stopped :: bool
  checked :: nat
  working :: nat
  dead :: nat
  total :: nat
  logs :: "log_entry list"
  deadIds :: "int list"
  myIp :: string
  proxies :: "ProxyToCheck list"
  queue :: "ProxyToCheck list"
  results :: "CheckResult list"
  workers :: "worker list"
  phase :: phase
  now :: int
  db :: "db_call list"
  emitted :: "progress list"
  requests :: "request list"

definition new_ProxyChecker :: "CheckerOptions \<Rightarrow> checker" where
  "new_ProxyChecker opts =
     \<lparr>options = opts, stopped = False, checked = 0, working = 0, dead = 0, total = 0,
      logs = [], deadIds = [], myIp = [], proxies = [], queue = [], results = [],
      workers = [], phase = Idle, now = 0, db = [], emitted = [], requests = []\<rparr>"

subsection \<open>The log and the progress snapshot\<close>

text \<open>\<^verbatim>\<open>xs.slice(-n)\<close>: the last \<open>n\<close> elements, all of them when there are fewer.\<close>

definition slice_last :: "nat \<Rightarrow> 'a list \<Rightarrow> 'a list" where
  "slice_last n xs = drop (length xs - n) xs"

definition addLog :: "log_msg \<Rightarrow> checker \<Rightarrow> checker" where
  "addLog message s =
     (let pushed = logs s @ [(now s, message)]
      in s\<lparr>logs := (if 500 < length pushed then slice_last 500 pushed else pushed)\<rparr>)"

definition stop :: "checker \<Rightarrow> checker" where
  "stop s = addLog LogStopped (s\<lparr>stopped := True\<rparr>)"

definition snapshot :: "CheckResult option \<Rightarrow> checker \<Rightarrow> progress" where
  "snapshot lastResult s =
     \<lparr>p_checked = checked s, p_total = total s, p_working = working s, p_dead = dead s,
      p_deleted = length (deadIds s),
      p_percent = percent_of (checked s) (total s),
      p_logs = slice_last 100 (logs s),
      p_lastResult = map_option (\<lambda>r.
         \<lparr>lr_proxy = cr_ip r @ '':'' @ show_int (cr_port r), lr_status = cr_status r,
          lr_latency = cr_latency r, lr_anonymity = cr_anonymity r\<rparr>) lastResult\<rparr>"

definition emitProgress :: "CheckResult option \<Rightarrow> checker \<Rightarrow> checker" where
  "emitProgress lastResult s = s\<lparr>emitted := emitted s @ [snapshot lastResult s]\<rparr>"

subsection \<open>Resolving the caller's own address\<close>

text \<open>
  \<^verbatim>\<open>detectMyIp\<close> up to its \<^verbatim>\<open>await\<close>, and from the reply on. The request is sent without
  \<^verbatim>\<open>validateStatus\<close>, so a status outside 200 to 299 is an exception like any other.
\<close>

definition detectMyIp_begin :: "checker \<Rightarrow> checker" where
  "detectMyIp_begin s = (let s1 = addLog LogDetecting s in s1\<lparr>requests := requests s1 @ [GetMyIp]\<rparr>)"

definition default_valid :: "http_response \<Rightarrow> bool" where
  "default_valid resp = (200 \<le> resp_status resp \<and> resp_status resp < 300)"

definition detectMyIp_end :: "reply \<Rightarrow> checker \<Rightarrow> checker" where
  "detectMyIp_end r s =
     (case r of
        Threw e \<Rightarrow> addLog LogDetectFailed s
      | Response resp \<Rightarrow>
          if default_valid resp then
            (let ip = (case resp_origin resp of None \<Rightarrow> [] | Some orig \<Rightarrow> orig);
                 s1 = s\<lparr>myIp := ip\<rparr>
             in if ip \<noteq> [] then addLog (LogMyIp ip) s1 else s1)
          else addLog LogDetectFailed s)"

subsection \<open>Probing one endpoint\<close>

definition result0 :: "ProxyToCheck \<Rightarrow> CheckResult" where
  "result0 proxy = \<lparr>cr_id = pc_id proxy, cr_ip = pc_ip proxy, cr_port = pc_port proxy,
                     cr_type = pc_type proxy, cr_status = Dead, cr_latency = None,
                     cr_anonymity = None\<rparr>"

text \<open>\<^verbatim>\<open>error.code || error.message?.substring(0, 50) || 'Error'\<close>\<close>

definition errMsg :: "js_error \<Rightarrow> string" where
  "errMsg e =
     (let fromMessage = (case err_message e of None \<Rightarrow> ''Error''
                         | Some m \<Rightarrow> if take 50 m \<noteq> [] then take 50 m else ''Error'')
      in case err_code e of None \<Rightarrow> fromMessage
         | Some c \<Rightarrow> if c \<noteq> [] then c else fromMessage)"

text \<open>
  \<^verbatim>\<open>checkProxy\<close> up to the \<^verbatim>\<open>await\<close> of the test request: the log line, then the request
  goes out at \<^verbatim>\<open>startTime = Date.now()\<close>.
\<close>

definition checkProxy_begin :: "ProxyToCheck \<Rightarrow> checker \<Rightarrow> checker" where
  "checkProxy_begin proxy s =
     (let s1 = addLog (LogProbe (pc_ip proxy) (pc_port proxy) (pc_type proxy)) s
      in s1\<lparr>requests := requests s1 @ [GetTest proxy]\<rparr>)"

text \<open>
  \<^verbatim>\<open>checkAnonymity\<close> from the reply on. An exception, also the one for a status outside
  200 to 299, gives \<^verbatim>\<open>'unknown'\<close>.
\<close>

definition checkAnonymity :: "string \<Rightarrow> reply \<Rightarrow> anonymity" where
  "checkAnonymity ip r =
     (case r of
        Threw e \<Rightarrow> Unknown
      | Response resp \<Rightarrow>
          if default_valid resp
          then classify ip (case resp_headers resp of None \<Rightarrow> [] | Some h \<Rightarrow> h)
          else Unknown)"

text \<open>
  \<^verbatim>\<open>checkProxy\<close> from the reply to the test request on. The test request is sent with
  \<^verbatim>\<open>validateStatus: () => true\<close>, so every response comes back as a response. An exception
  raised anywhere in the \<^verbatim>\<open>try\<close> block (building the agent, the transport, the timeout)
  is the reply \<open>Threw\<close>. The function either has the result (\<open>Inl\<close>) or is suspended
  again, at the request of \<^verbatim>\<open>checkAnonymity\<close> (\<open>Inr\<close>).
\<close>

definition checkProxy_reply ::
  "ProxyToCheck \<Rightarrow> int \<Rightarrow> reply \<Rightarrow> checker \<Rightarrow> (CheckResult + worker) \<times> checker" where
  "checkProxy_reply proxy startTime r s =
     (case r of
        Threw e \<Rightarrow>
          (Inl ((result0 proxy)\<lparr>cr_status := Dead\<rparr>),
           addLog (LogError (pc_ip proxy) (pc_port proxy) (errMsg e)) s)
      | Response resp \<Rightarrow>
          (let latency = now s - startTime in
           if 200 \<le> resp_status resp \<and> resp_status resp < 400 then
             (let result = (result0 proxy)\<lparr>cr_status := Working, cr_latency := Some latency\<rparr> in
              if opt_checkAnonymity (options s) \<and> myIp s \<noteq> []
              then (Inr (AwaitAnon proxy result latency),
                    s\<lparr>requests := requests s @ [GetHeaders proxy]\<rparr>)
              else (Inl (result\<lparr>cr_anonymity := Some Unknown\<rparr>),
                    addLog (LogWorking (pc_ip proxy) (pc_port proxy) latency) s))
           else (Inl (result0 proxy),
                 addLog (LogHttp (pc_ip proxy) (pc_port proxy) (resp_status resp)) s)))"

definition checkProxy_anon ::
  "ProxyToCheck \<Rightarrow> CheckResult \<Rightarrow> int \<Rightarrow> reply \<Rightarrow> checker \<Rightarrow> CheckResult \<times> checker" where
  "checkProxy_anon proxy result latency r s =
     (let a = checkAnonymity (myIp s) r
      in (result\<lparr>cr_anonymity := Some a\<rparr>,
          addLog (LogWorkingAnon (pc_ip proxy) (pc_port proxy) latency a) s))"

subsection \<open>The worker loop\<close>

text \<open>
  The body of the loop of \<^verbatim>\<open>processNext\<close> behind \<^verbatim>\<open>await this.checkProxy(proxy)\<close>: the
  result is appended, the endpoint is updated in the database or its id is kept for the
  deletion, the counters go up, a snapshot is emitted.
\<close>

definition record_result :: "CheckResult \<Rightarrow> checker \<Rightarrow> checker" where
  "record_result result s =
     (let s1 = s\<lparr>results := results s @ [result]\<rparr>;
          s2 = (if cr_status result = Dead \<and> opt_deleteDead (options s1)
                then s1\<lparr>deadIds := deadIds s1 @ [cr_id result]\<rparr>
                else s1\<lparr>db := db s1 @ [UpdateProxy (cr_id result)
                        \<lparr>up_status = cr_status result, up_latency = cr_latency result,
                         up_anonymity = cr_anonymity result,
                         up_last_checked = now s1 div 1000\<rparr>]\<rparr>);
          s3 = s2\<lparr>checked := checked s2 + 1\<rparr>;
          s4 = (if cr_status result = Working then s3\<lparr>working := working s3 + 1\<rparr>
                else s3\<lparr>dead := dead s3 + 1\<rparr>)
      in emitProgress (Some result) s4)"

text \<open>
  The head of the loop, \<^verbatim>\<open>while (queue.length > 0 && !this.stopped)\<close>, up to the next
  \<^verbatim>\<open>await\<close>: it gives the state the worker is left in.
\<close>

definition processNext :: "checker \<Rightarrow> worker \<times> checker" where
  "processNext s =
     (case queue s of
        [] \<Rightarrow> (Returned, s)
      | proxy # rest \<Rightarrow>
          if stopped s then (Returned, s)
          else (let s1 = checkProxy_begin proxy (s\<lparr>queue := rest\<rparr>)
                in (AwaitProbe proxy (now s1), s1)))"

subsection \<open>\<^verbatim>\<open>checkAll\<close>\<close>

text \<open>What follows \<^verbatim>\<open>await Promise.all(activePromises)\<close>.\<close>

definition finish :: "checker \<Rightarrow> checker" where
  "finish s =
     (let s1 = (if opt_deleteDead (options s) \<and> 0 < length (deadIds s)
                then (let a = addLog (LogDeleting (length (deadIds s))) s;
                          b = a\<lparr>db := db a @ [DeleteProxies (deadIds a)]\<rparr>
                      in addLog (LogDeleted (length (deadIds b))) b)
                else s);
          s2 = addLog (LogFinished (working s1) (dead s1)) s1;
          s3 = emitProgress None s2
      in s3\<lparr>phase := Finished\<rparr>)"

definition all_returned :: "checker \<Rightarrow> bool" where
  "all_returned s = list_all (\<lambda>w. w = Returned) (workers s)"

definition await_all :: "checker \<Rightarrow> checker" where
  "await_all s = (if phase s = Running \<and> all_returned s then finish s else s)"

text \<open>\<^verbatim>\<open>activePromises.push(processNext())\<close>: the call runs up to its first \<^verbatim>\<open>await\<close>.\<close>

definition spawn :: "checker \<Rightarrow> checker" where
  "spawn s = (case processNext s of (w, s1) \<Rightarrow> s1\<lparr>workers := workers s1 @ [w]\<rparr>)"

fun spawn_workers :: "nat \<Rightarrow> checker \<Rightarrow> checker" where
  "spawn_workers 0 s = s"
| "spawn_workers (Suc n) s = spawn_workers n (spawn s)"

text \<open>\<^verbatim>\<open>checkAll\<close> from \<^verbatim>\<open>this.emitProgress()\<close> to \<^verbatim>\<open>await Promise.all\<close>.\<close>

definition start_workers :: "checker \<Rightarrow> checker" where
  "start_workers s =
     (let s1 = emitProgress None s;
          s2 = s1\<lparr>results := [], queue := proxies s1, workers := [], phase := Running\<rparr>;
          workerCount = min (opt_threads (options s2)) (int (length (proxies s2)))
      in await_all (spawn_workers (nat workerCount) s2))"

text \<open>
  The call \<^verbatim>\<open>checkAll(proxies)\<close> at time \<open>t\<close>, up to its first \<^verbatim>\<open>await\<close>: that of
  \<^verbatim>\<open>detectMyIp\<close> when the anonymity check is on, that of the workers otherwise.
\<close>

definition checkAll :: "checker \<Rightarrow> ProxyToCheck list \<Rightarrow> int \<Rightarrow> checker" where
  "checkAll s0 ps t =
     (let s1 = s0\<lparr>now := t, proxies := ps, stopped := False, checked := 0, working := 0,
                  dead := 0, total := length ps, logs := [], deadIds := []\<rparr>;
          s2 = addLog (LogStart (total s1)) s1;
          s3 = addLog (LogThreads (opt_threads (options s2)) (opt_timeout (options s2))) s2;
          s4 = addLog (LogUrl (opt_testUrl (options s3))) s3;
          s5 = addLog (LogDeleteDead (opt_deleteDead (options s4))) s4;
          s6 = addLog (LogCheckAnonymity (opt_checkAnonymity (options s5))) s5
      in if opt_checkAnonymity (options s6)
         then (detectMyIp_begin s6)\<lparr>phase := Detecting\<rparr>
         else start_workers s6)"

subsection \<open>Events\<close>

text \<open>
  An event happens at a time: the user's \<^verbatim>\<open>stop()\<close>, the reply to the request of
  \<^verbatim>\<open>detectMyIp\<close>, the reply to the request worker \<open>i\<close> is waiting for. A reply nobody
  waits for does not happen: it leaves the state as it is.
\<close>

datatype event = Stop | IpReply reply | Reply nat reply

definition continue :: "nat \<Rightarrow> CheckResult \<Rightarrow> checker \<Rightarrow> checker" where
  "continue i result s =
     (case processNext (record_result result s) of
        (w, s1) \<Rightarrow> await_all (s1\<lparr>workers := (workers s1)[i := w]\<rparr>))"

definition resume :: "nat \<Rightarrow> reply \<Rightarrow> checker \<Rightarrow> checker" where
  "resume i r s =
     (case workers s ! i of
        AwaitProbe proxy startTime \<Rightarrow>
          (case checkProxy_reply proxy startTime r s of
             (Inl result, s1) \<Rightarrow> continue i result s1
           | (Inr w, s1) \<Rightarrow> s1\<lparr>workers := (workers s1)[i := w]\<rparr>)
      | AwaitAnon proxy result latency \<Rightarrow>
          (case checkProxy_anon proxy result latency r s of
             (result1, s1) \<Rightarrow> continue i result1 s1)
      | Returned \<Rightarrow> s)"

definition step :: "checker \<Rightarrow> int \<times> event \<Rightarrow> checker" where
  "step s te =
     (case snd te of
        Stop \<Rightarrow> stop (s\<lparr>now := fst te\<rparr>)
      | IpReply r \<Rightarrow>
          if phase s = Detecting then start_workers (detectMyIp_end r (s\<lparr>now := fst te\<rparr>))
          else s
      | Reply i r \<Rightarrow>
          if phase s = Running \<and> i < length (workers s) then resume i r (s\<lparr>now := fst te\<rparr>)
          else s)"

text \<open>
  A run: a new checker, \<^verbatim>\<open>checkAll(proxies)\<close> at time \<open>t0\<close>, then the events in their
  order. The state after any list of events is a point of the run.
\<close>

definition run :: "CheckerOptions \<Rightarrow> ProxyToCheck list \<Rightarrow> int \<Rightarrow> (int \<times> event) list \<Rightarrow> checker" where
  "run opts ps t0 evs = foldl step (checkAll (new_ProxyChecker opts) ps t0) evs"

section \<open>The source aggregator\<close>

subsection \<open>The data of the aggregator\<close>

definition upper_char :: "char \<Rightarrow> char" where
  "upper_char c = (let n = (of_char c :: nat) in if 97 \<le> n \<and> n \<le> 122 then char_of (n - 32) else c)"

definition toUpperCase :: "string \<Rightarrow> string" where
  "toUpperCase s = map upper_char s"

text \<open>
  A port is a JavaScript number that \<^verbatim>\<open>parseInt\<close> returned: an integer or \<^verbatim>\<open>NaN\<close>.
  (Integers are rendered in decimal; the exponent notation of numbers from \<open>10^21\<close> on is
  not modelled.)
\<close>

datatype number = Num int | NaN

definition show_number :: "number \<Rightarrow> string" where
  "show_number x = (case x of Num i \<Rightarrow> show_int i | NaN \<Rightarrow> ''NaN'')"

record ProxySource =
  src_name :: string
  src_url :: string

text \<open>
  \<^verbatim>\<open>ParsedProxy\<close>; the parsers never set \<^verbatim>\<open>username\<close> and \<^verbatim>\<open>password\<close>, which are left
  out.
\<close>

record ParsedProxy =
  pp_ip :: string
  pp_port :: number
  pp_type :: "string option"
  pp_country :: "string option"
  pp_anonymity :: "string option"

text \<open>\<^verbatim>\<open>ParseFilters\<close>; its field \<^verbatim>\<open>countries\<close> is never read.\<close>

record ParseFilters =
  f_types :: "string list option"

datatype parse_status = Parsing | Done | Error

record parse_progress =
  pg_source :: string
  pg_count :: nat
  pg_status :: parse_status

text \<open>
  What one \<^verbatim>\<open>axios.get\<close> of a parser leads to. Each parser wraps the request and the
  reading of the body in a \<^verbatim>\<open>try\<close> block that pushes the candidates it finds. The
  environment says which candidates the block pushes and whether it then completes
  (\<open>Listed\<close>) or throws (\<open>Failed\<close>: the request fails, the status is an error, or the body
  cannot be read; a failed request has pushed nothing). The HTML, text and JSON
  readers themselves are not modelled.
\<close>

datatype listing = Failed "ParsedProxy list" | Listed "ParsedProxy list"

text \<open>The network: the answer to the \<open>k\<close>-th request of the aggregation, for its URL.\<close>

type_synonym net = "nat \<Rightarrow> string \<Rightarrow> listing"

text \<open>
  What an aggregation has done so far: the number of requests sent, the URLs reported
  by \<^verbatim>\<open>console.error\<close>, the progress events passed to \<^verbatim>\<open>onProgress\<close>.
\<close>

record aggregation =
  fetched :: nat
  console :: "string list"
  progress_events :: "parse_progress list"

definition pushed :: "listing \<Rightarrow> ParsedProxy list" where
  "pushed l = (case l of Failed ps \<Rightarrow> ps | Listed ps \<Rightarrow> ps)"

text \<open>
  One \<^verbatim>\<open>try { ... await axios.get(url, config) ... } catch (error) { console.error(...) }\<close>:
  the candidates pushed, and the exception, if any, ends on the console.
\<close>

definition fetch :: "string \<Rightarrow> net \<Rightarrow> aggregation \<Rightarrow> ParsedProxy list \<times> aggregation" where
  "fetch url web a =
     (case web (fetched a) url of
        Listed ps \<Rightarrow> (ps, a\<lparr>fetched := fetched a + 1\<rparr>)
      | Failed ps \<Rightarrow> (ps, a\<lparr>fetched := fetched a + 1, console := console a @ [url]\<rparr>))"

subsection \<open>The parsers\<close>

definition parseFreeProxyList :: "string \<Rightarrow> net \<Rightarrow> aggregation \<Rightarrow> ParsedProxy list \<times> aggregation" where
  "parseFreeProxyList url web a = fetch url web a"

text \<open>
  The loop \<^verbatim>\<open>for (const type of types)\<close> of the two parsers of text listings: one
  request per type, each in its own \<^verbatim>\<open>try\<close> block; a line gives the address and the
  port, the type is the requested one in upper case.
\<close>

fun fetch_types ::
  "(string \<Rightarrow> string) \<Rightarrow> string list \<Rightarrow> net \<Rightarrow> ParsedProxy list \<Rightarrow> aggregation
   \<Rightarrow> ParsedProxy list \<times> aggregation" where
  "fetch_types mk_url [] web found a = (found, a)"
| "fetch_types mk_url (t # ts) web found a =
     (case fetch (mk_url t) web a of
        (lines, a1) \<Rightarrow>
          fetch_types mk_url ts web
            (found @ map (\<lambda>l. \<lparr>pp_ip = pp_ip l, pp_port = pp_port l,
                                  pp_type = Some (toUpperCase t), pp_country = None,
                                  pp_anonymity = None\<rparr>) lines) a1)"

definition filter_types :: "ParseFilters option \<Rightarrow> string list option" where
  "filter_types filters = (case filters of None \<Rightarrow> None | Some f \<Rightarrow> f_types f)"

definition parseProxyListDownload ::
  "ParseFilters option \<Rightarrow> net \<Rightarrow> aggregation \<Rightarrow> ParsedProxy list \<times> aggregation" where
  "parseProxyListDownload filters web a =
     (let types = (case filter_types filters of None \<Rightarrow> [''http'', ''https'', ''socks4'', ''socks5'']
                   | Some ts \<Rightarrow> ts)
      in fetch_types (\<lambda>t. ''https://www.proxy-list.download/api/v1/get?type='' @ t) types web [] a)"

definition parseProxyScrape ::
  "ParseFilters option \<Rightarrow> net \<Rightarrow> aggregation \<Rightarrow> ParsedProxy list \<times> aggregation" where
  "parseProxyScrape filters web a =
     (let types = (case filter_types filters of None \<Rightarrow> [''http'', ''socks4'', ''socks5'']
                   | Some ts \<Rightarrow> ts)
      in fetch_types (\<lambda>t. ''https://api.proxyscrape.com/v2/?request=displayproxies&protocol='' @ t
                            @ ''&timeout=10000&country=all'') types web [] a)"

fun join :: "string \<Rightarrow> string list \<Rightarrow> string" where
  "join sep [] = []"
| "join sep [x] = x"
| "join sep (x # xs) = x @ sep @ join sep xs"

definition parseGeoNode ::
  "ParseFilters option \<Rightarrow> net \<Rightarrow> aggregation \<Rightarrow> ParsedProxy list \<times> aggregation" where
  "parseGeoNode filters web a =
     (let protocols = (case filter_types filters of None \<Rightarrow> [''http'', ''https'', ''socks4'', ''socks5'']
                       | Some ts \<Rightarrow> map toLowerCase ts)
      in fetch (''https://proxylist.geonode.com/api/proxy-list?limit=500&page=1&sort_by=lastChecked&sort_type=desc&protocols=''
                @ join '','' protocols) web a)"

subsection \<open>\<^verbatim>\<open>parseFromSources\<close>\<close>

text \<open>The choice of the parser by the URL of the source; no parser for an unknown URL.\<close>

definition parse_source ::
  "ProxySource \<Rightarrow> ParseFilters option \<Rightarrow> net \<Rightarrow> aggregation \<Rightarrow> ParsedProxy list \<times> aggregation" where
  "parse_source source filters web a =
     (if str_includes (src_url source) ''free-proxy-list.net''
         \<or> str_includes (src_url source) ''sslproxies.org''
      then parseFreeProxyList (src_url source) web a
      else if str_includes (src_url source) ''proxy-list.download''
      then parseProxyListDownload filters web a
      else if str_includes (src_url source) ''proxyscrape.com''
      then parseProxyScrape filters web a
      else if str_includes (src_url source) ''geonode.com''
      then parseGeoNode filters web a
      else ([], a))"

text \<open>
  The filter by type, applied when \<^verbatim>\<open>filters?.types\<close> is there and not empty:
  \<^verbatim>\<open>t.toUpperCase() === p.type?.toUpperCase()\<close> for some requested type \<open>t\<close>.
\<close>

definition type_filter :: "ParseFilters option \<Rightarrow> ParsedProxy list \<Rightarrow> ParsedProxy list" where
  "type_filter filters ps =
     (case filter_types filters of
        None \<Rightarrow> ps
      | Some ts \<Rightarrow>
          if 0 < length ts
          then filter (\<lambda>p. list_ex (\<lambda>t. Some (toUpperCase t) = map_option toUpperCase (pp_type p)) ts) ps
          else ps)"

definition on_progress :: "string \<Rightarrow> nat \<Rightarrow> parse_status \<Rightarrow> aggregation \<Rightarrow> aggregation" where
  "on_progress name n st a =
     a\<lparr>progress_events := progress_events a @ [\<lparr>pg_source = name, pg_count = n, pg_status = st\<rparr>]\<rparr>"

text \<open>
  The body of the \<^verbatim>\<open>try\<close> block of the loop over the sources, up to the filter: \<open>Inr\<close> when it
  completes, \<open>Inl\<close> when it throws. Every parser catches its own exceptions, and the
  filter raises none on strings, so the block completes.
\<close>

definition try_source ::
  "ProxySource \<Rightarrow> ParseFilters option \<Rightarrow> net \<Rightarrow> aggregation
   \<Rightarrow> aggregation + ParsedProxy list \<times> aggregation" where
  "try_source source filters web a =
     (case parse_source source filters web a of (ps, a1) \<Rightarrow> Inr (type_filter filters ps, a1))"

fun sources_loop ::
  "ProxySource list \<Rightarrow> ParseFilters option \<Rightarrow> net \<Rightarrow> ParsedProxy list \<Rightarrow> aggregation
   \<Rightarrow> ParsedProxy list \<times> aggregation" where
  "sources_loop [] filters web allProxies a = (allProxies, a)"
| "sources_loop (source # rest) filters web allProxies a =
     (case try_source source filters web (on_progress (src_name source) 0 Parsing a) of
        Inr (ps, a1) \<Rightarrow>
          sources_loop rest filters web (allProxies @ ps)
            (on_progress (src_name source) (length ps) Done a1)
      | Inl a1 \<Rightarrow>
          sources_loop rest filters web allProxies (on_progress (src_name source) 0 Error a1))"

text \<open>
  The removal of duplicates: a \<^verbatim>\<open>Map\<close> from the key \<^verbatim>\<open>`${proxy.ip}:${proxy.port}`\<close> to the
  first candidate seen with it; a \<^verbatim>\<open>Map\<close> keeps the order of insertion.
\<close>

definition proxy_key :: "ParsedProxy \<Rightarrow> string" where
  "proxy_key p = pp_ip p @ '':'' @ show_number (pp_port p)"

fun unique_loop :: "ParsedProxy list \<Rightarrow> (string \<times> ParsedProxy) list \<Rightarrow> (string \<times> ParsedProxy) list" where
  "unique_loop [] unique = unique"
| "unique_loop (p # ps) unique =
     (if proxy_key p \<in> set (map fst unique) then unique_loop ps unique
      else unique_loop ps (unique @ [(proxy_key p, p)]))"

definition dedup :: "ParsedProxy list \<Rightarrow> ParsedProxy list" where
  "dedup allProxies = map snd (unique_loop allProxies [])"

definition new_aggregation :: aggregation where
  "new_aggregation = \<lparr>fetched = 0, console = [], progress_events = []\<rparr>"

definition parseFromSources ::
  "ProxySource list \<Rightarrow> ParseFilters option \<Rightarrow> net \<Rightarrow> ParsedProxy list \<times> aggregation" where
  "parseFromSources sources filters web =
     (case sources_loop sources filters web [] new_aggregation of
        (allProxies, a) \<Rightarrow> (dedup allProxies, a))"

subsection \<open>Observations on a state\<close>

definition active :: "worker \<Rightarrow> bool" where
  "active w = (w \<noteq> Returned)"

text \<open>The number of workers that wait for a reply.\<close>

definition inflight :: "checker \<Rightarrow> nat" where
  "inflight s = length (filter active (workers s))"

text \<open>The endpoints a test request was sent for, in the order of the requests.\<close>

definition test_requests :: "request list \<Rightarrow> ProxyToCheck list" where
  "test_requests rq = concat (map (\<lambda>q. case q of GetTest p \<Rightarrow> [p] | _ \<Rightarrow> []) rq)"

definition probed :: "checker \<Rightarrow> ProxyToCheck list" where
  "probed s = test_requests (requests s)"

text \<open>The endpoints an anonymity request was sent for.\<close>

definition header_requests :: "request list \<Rightarrow> ProxyToCheck list" where
  "header_requests rq = concat (map (\<lambda>q. case q of GetHeaders p \<Rightarrow> [p] | _ \<Rightarrow> []) rq)"

definition anon_probed :: "checker \<Rightarrow> ProxyToCheck list" where
  "anon_probed s = header_requests (requests s)"

text \<open>The calls of \<^verbatim>\<open>updateProxy\<close> and of \<^verbatim>\<open>deleteProxies\<close>, each in their order.\<close>

definition update_calls :: "db_call list \<Rightarrow> (int \<times> proxy_update) list" where
  "update_calls cs = concat (map (\<lambda>c. case c of UpdateProxy i u \<Rightarrow> [(i, u)] | _ \<Rightarrow> []) cs)"

definition updates :: "checker \<Rightarrow> (int \<times> proxy_update) list" where
  "updates s = update_calls (db s)"

definition delete_calls :: "db_call list \<Rightarrow> int list list" where
  "delete_calls cs = concat (map (\<lambda>c. case c of DeleteProxies ids \<Rightarrow> [ids] | _ \<Rightarrow> []) cs)"

definition deletions :: "checker \<Rightarrow> int list list" where
  "deletions s = delete_calls (db s)"

text \<open>The reply to a test request is a response with a status from 200 to 399.\<close>

definition ok_reply :: "reply \<Rightarrow> bool" where
  "ok_reply r = (case r of Threw e \<Rightarrow> False
                 | Response resp \<Rightarrow> 200 \<le> resp_status resp \<and> resp_status resp \<le> 399)"

text \<open>The outcome for a live endpoint before its anonymity is filled in.\<close>

definition working_result :: "ProxyToCheck \<Rightarrow> int \<Rightarrow> CheckResult" where
  "working_result proxy latency =
     \<lparr>cr_id = pc_id proxy, cr_ip = pc_ip proxy, cr_port = pc_port proxy, cr_type = pc_type proxy,
      cr_status = Working, cr_latency = Some latency, cr_anonymity = None\<rparr>"

text \<open>
  The bookkeeping that holds at every point of a run: the counters agree with the list
  of results, every endpoint that left the queue was probed, and a probed endpoint
  either has its outcome or a worker is waiting for it.
\<close>

definition consistent :: "checker \<Rightarrow> bool" where
  "consistent s \<longleftrightarrow>
     checked s = working s + dead s
     \<and> length (results s) = checked s
     \<and> total s = length (proxies s)
     \<and> phase s \<noteq> Idle
     \<and> (phase s = Detecting \<longrightarrow> probed s = [] \<and> workers s = [] \<and> results s = [])
     \<and> (phase s \<noteq> Detecting \<longrightarrow> probed s @ queue s = proxies s)
     \<and> checked s + inflight s = length (probed s)
     \<and> (phase s = Running \<longrightarrow> 0 < inflight s)
     \<and> (phase s = Finished \<longrightarrow> inflight s = 0)"

text \<open>\<^verbatim>\<open>Math.min(this.options.threads, proxies.length)\<close>, the number of turns of the loop that
  starts the workers.\<close>

definition worker_count :: "checker \<Rightarrow> nat" where
  "worker_count s = nat (min (opt_threads (options s)) (int (length (proxies s))))"

text \<open>
  Every snapshot emitted so far has counters that add up and stay within the total,
  and once the run is finished the last snapshot shows the final counters.
\<close>

definition sums_up :: "nat \<Rightarrow> progress \<Rightarrow> bool" where
  "sums_up n p \<longleftrightarrow> p_checked p = p_working p + p_dead p \<and> p_checked p \<le> p_total p \<and> p_total p = n"

definition reported :: "checker \<Rightarrow> bool" where
  "reported s \<longleftrightarrow>
     (\<forall>p \<in> set (emitted s). sums_up (total s) p)
     \<and> (phase s = Finished \<longrightarrow>
          emitted s \<noteq> []
          \<and> p_checked (last (emitted s)) = checked s
          \<and> p_working (last (emitted s)) = working s
          \<and> p_dead (last (emitted s)) = dead s
          \<and> p_deleted (last (emitted s)) = length (deadIds s)
          \<and> p_lastResult (last (emitted s)) = None)"

text \<open>
  While nobody has stopped the run and at least one worker was asked for, an endpoint
  left in the queue has a worker that will come back for it.
\<close>

definition drains :: "checker \<Rightarrow> bool" where
  "drains s \<longleftrightarrow>
     (\<not> stopped s \<and> phase s \<noteq> Detecting \<and> 1 \<le> opt_threads (options s)
      \<longrightarrow> queue s = [] \<or> 0 < inflight s)"

text \<open>
  What \<open>detectMyIp_end\<close> stores as the caller's address when no address was stored
  before: the \<^verbatim>\<open>origin\<close> of a valid response, nothing otherwise.
\<close>

definition reply_origin :: "reply \<Rightarrow> string" where
  "reply_origin r =
     (case r of
        Threw e \<Rightarrow> []
      | Response resp \<Rightarrow>
          if default_valid resp then (case resp_origin resp of None \<Rightarrow> [] | Some orig \<Rightarrow> orig)
          else [])"

text \<open>The first reply to the request of \<open>detectMyIp\<close> among the events.\<close>

fun first_ip_reply :: "(int \<times> event) list \<Rightarrow> reply option" where
  "first_ip_reply [] = None"
| "first_ip_reply (e # es) = (case snd e of IpReply r \<Rightarrow> Some r | _ \<Rightarrow> first_ip_reply es)"

text \<open>
  Every outcome is graded if and only if it is live; while no address is known or the
  anonymity check is off, no anonymity request is made and every grade is \<open>Unknown\<close>.
\<close>

definition graded :: "checker \<Rightarrow> bool" where
  "graded s \<longleftrightarrow>
     (\<forall>r \<in> set (results s).
        (cr_status r = Working \<longrightarrow> cr_anonymity r \<noteq> None \<and> cr_latency r \<noteq> None)
        \<and> (cr_status r = Dead \<longrightarrow> cr_anonymity r = None \<and> cr_latency r = None))
     \<and> (\<forall>p res lat. AwaitAnon p res lat \<in> set (workers s)
           \<longrightarrow> cr_status res = Working \<and> cr_latency res = Some lat)
     \<and> (phase s = Detecting \<longrightarrow> anon_probed s = [])
     \<and> (\<not> opt_checkAnonymity (options s) \<or> myIp s = [] \<longrightarrow>
          anon_probed s = []
          \<and> (\<forall>p res lat. AwaitAnon p res lat \<notin> set (workers s))
          \<and> (\<forall>r \<in> set (results s). cr_status r = Working \<longrightarrow> cr_anonymity r = Some Unknown))"

text \<open>
  The database calls of a run: an update for every outcome that is not kept for the
  deletion, in the order of the outcomes and with their values; the ids kept are those
  of the dead outcomes when the option is set; and one deletion, of the ids kept, once
  the run has finished with some id kept.
\<close>

definition update_values :: "int \<times> proxy_update \<Rightarrow> int \<times> status \<times> int option \<times> anonymity option" where
  "update_values iu = (fst iu, up_status (snd iu), up_latency (snd iu), up_anonymity (snd iu))"

definition result_values :: "CheckResult \<Rightarrow> int \<times> status \<times> int option \<times> anonymity option" where
  "result_values r = (cr_id r, cr_status r, cr_latency r, cr_anonymity r)"

definition kept_for_deletion :: "checker \<Rightarrow> CheckResult \<Rightarrow> bool" where
  "kept_for_deletion s r \<longleftrightarrow> cr_status r = Dead \<and> opt_deleteDead (options s)"

definition persisted :: "checker \<Rightarrow> bool" where
  "persisted s \<longleftrightarrow>
     deadIds s = map cr_id (filter (kept_for_deletion s) (results s))
     \<and> map update_values (updates s)
         = map result_values (filter (\<lambda>r. \<not> kept_for_deletion s r) (results s))
     \<and> deletions s = (if phase s = Finished \<and> opt_deleteDead (options s) \<and> deadIds s \<noteq> []
                      then [deadIds s] else [])"





subsection \<open>Observations on an aggregation\<close>

text \<open>The number read back from a string of decimal digits.\<close>

definition decimal_value :: "string \<Rightarrow> nat" where
  "decimal_value ds = foldl (\<lambda>a c. 10 * a + ((of_char c :: nat) - 48)) 0 ds"

text \<open>The number of requests the parser of a source sends.\<close>

definition request_count :: "ProxySource \<Rightarrow> ParseFilters option \<Rightarrow> nat" where
  "request_count source filters =
     (if str_includes (src_url source) ''free-proxy-list.net''
         \<or> str_includes (src_url source) ''sslproxies.org''
      then 1
      else if str_includes (src_url source) ''proxy-list.download''
      then (case filter_types filters of None \<Rightarrow> 4 | Some ts \<Rightarrow> length ts)
      else if str_includes (src_url source) ''proxyscrape.com''
      then (case filter_types filters of None \<Rightarrow> 3 | Some ts \<Rightarrow> length ts)
      else if str_includes (src_url source) ''geonode.com''
      then 1
      else 0)"

text \<open>
  The candidates of one source, filtered by type, when the first request of its parser
  is the \<open>k\<close>-th request of the aggregation.
\<close>

definition aggregation_at :: "nat \<Rightarrow> aggregation" where
  "aggregation_at k = \<lparr>fetched = k, console = [], progress_events = []\<rparr>"

definition source_candidates ::
  "ProxySource \<Rightarrow> ParseFilters option \<Rightarrow> net \<Rightarrow> nat \<Rightarrow> ParsedProxy list" where
  "source_candidates source filters web k
     = type_filter filters (fst (parse_source source filters web (aggregation_at k)))"

text \<open>The candidates of all sources, each source with its own requests.\<close>

fun gathered :: "ProxySource list \<Rightarrow> ParseFilters option \<Rightarrow> net \<Rightarrow> nat \<Rightarrow> ParsedProxy list" where
  "gathered [] filters web k = []"
| "gathered (source # rest) filters web k
     = source_candidates source filters web k
       @ gathered rest filters web (k + request_count source filters)"

text \<open>Two events for every source: \<open>Parsing\<close>, then \<open>Done\<close> with the number of its candidates.\<close>

fun expected_events ::
  "ProxySource list \<Rightarrow> ParseFilters option \<Rightarrow> net \<Rightarrow> nat \<Rightarrow> parse_progress list" where
  "expected_events [] filters web k = []"
| "expected_events (source # rest) filters web k
     = [\<lparr>pg_source = src_name source, pg_count = 0, pg_status = Parsing\<rparr>,
        \<lparr>pg_source = src_name source,
         pg_count = length (source_candidates source filters web k), pg_status = Done\<rparr>]
       @ expected_events rest filters web (k + request_count source filters)"


text \<open>A network on which the answer to a request depends on its URL only.\<close>

definition stable :: "net \<Rightarrow> bool" where
  "stable web \<longleftrightarrow> (\<forall>k k' url. web k url = web k' url)"

text \<open>
  The \<^verbatim>\<open>percent\<close> field of a snapshot is the guarded expression of \<^verbatim>\<open>emitProgress\<close>
  applied to the counters the snapshot itself carries.
\<close>

definition well_formed :: "progress \<Rightarrow> bool" where
  "well_formed p \<longleftrightarrow> p_percent p = percent_of (p_checked p) (p_total p)"

definition percented :: "checker \<Rightarrow> bool" where
  "percented s \<longleftrightarrow> list_all well_formed (emitted s)"

subsection \<open>Sample inputs\<close>

definition sample_options :: CheckerOptions where
  "sample_options = \<lparr>opt_threads = 2, opt_timeout = 1000, opt_testUrl = ''http://httpbin.org/ip'',
                      opt_deleteDead = True, opt_checkAnonymity = True\<rparr>"

definition sample_proxy :: "int \<Rightarrow> ProxyToCheck" where
  "sample_proxy n = \<lparr>pc_id = n, pc_ip = ''10.0.0.1'', pc_port = 8000 + n, pc_type = ''HTTP'',
                     pc_username = None, pc_password = None\<rparr>"

definition sample_response :: "int \<Rightarrow> reply" where
  "sample_response st = Response \<lparr>resp_status = st, resp_origin = Some ''203.0.113.9'',
                                  resp_headers = Some [(''Via'', ''1.1 proxy'')]\<rparr>"

definition sample_failure :: reply where
  "sample_failure = Threw \<lparr>err_code = Some ''ECONNREFUSED'', err_message = None\<rparr>"

text \<open>
  A run without the anonymity check over two endpoints: the first answers 200 after
  7 ms, the second refuses the connection.
\<close>

definition sample_plain :: CheckerOptions where
  "sample_plain = \<lparr>opt_threads = 2, opt_timeout = 1000, opt_testUrl = ''http://httpbin.org/ip'',
                    opt_deleteDead = True, opt_checkAnonymity = False\<rparr>"

definition sample_events :: "(int \<times> event) list" where
  "sample_events = [(7, Reply 0 (sample_response 200)), (9, Reply 1 sample_failure)]"

text \<open>A run over one endpoint that answers 200: nothing is dead.\<close>

definition sample_live_events :: "(int \<times> event) list" where
  "sample_live_events = [(7, Reply 0 (sample_response 200))]"


text \<open>A run with the anonymity check in which the caller's address cannot be resolved.\<close>

definition sample_unresolved_events :: "(int \<times> event) list" where
  "sample_unresolved_events = [(5, IpReply sample_failure), (9, Reply 0 (sample_response 200))]"


text \<open>Sources and networks: one on which every request fails, one that lists the same
  three candidates, two of them alike, for every URL.\<close>

definition sample_source :: ProxySource where
  "sample_source = \<lparr>src_name = ''SSL Proxies'', src_url = ''https://www.sslproxies.org/''\<rparr>"


definition sample_candidate :: "string \<Rightarrow> int \<Rightarrow> ParsedProxy" where
  "sample_candidate a p = \<lparr>pp_ip = a, pp_port = Num p, pp_type = Some ''HTTP'',
                           pp_country = None, pp_anonymity = None\<rparr>"


definition sample_web :: net where
  "sample_web k url = Listed [sample_candidate ''1.1.1.1'' 80, sample_candidate ''2.2.2.2'' 81,
                              sample_candidate ''1.1.1.1'' 80]"


section \<open>Proofs\<close>

subsection \<open>The sample runs, evaluated\<close>

lemmas eval_defs = run_def checkAll_def new_ProxyChecker_def Let_def start_workers_def
  await_all_def all_returned_def spawn_def processNext_def checkProxy_begin_def addLog_def
  emitProgress_def snapshot_def slice_last_def finish_def step_def resume_def continue_def
  record_result_def checkProxy_reply_def checkProxy_anon_def checkAnonymity_def stop_def
  detectMyIp_begin_def detectMyIp_end_def default_valid_def result0_def errMsg_def
  sample_proxy_def sample_response_def sample_failure_def sample_options_def numeral_2_eq_2

lemma sample_plain_run:
  "let s = run sample_plain [sample_proxy 1, sample_proxy 2] 0 sample_events
   in phase s = Finished \<and> \<not> stopped s \<and> queue s = [] \<and> emitted s \<noteq> []
      \<and> 1 \<le> opt_threads sample_plain \<and> opt_deleteDead sample_plain
      \<and> deadIds s = [2] \<and> map cr_status (results s) = [Working, Dead]"
  by (simp add: eval_defs sample_plain_def sample_events_def)

lemma sample_live_run:
  "let s = run sample_plain [sample_proxy 1] 0 sample_live_events
   in phase s = Finished \<and> map cr_status (results s) = [Working]
      \<and> delete_calls (db s) = []"
  by (simp add: eval_defs sample_plain_def sample_live_events_def delete_calls_def)


lemma sample_unresolved_run:
  "let s = run sample_options [sample_proxy 1] 0 sample_unresolved_events
   in phase s = Finished \<and> map cr_status (results s) = [Working]"
  by (simp add: eval_defs sample_unresolved_events_def)



lemma sample_empty_run:
  "let s = run sample_plain [] 0 []
   in phase s = Finished \<and> length (emitted s) = 2 \<and> total s = 0"
  by (simp add: eval_defs sample_plain_def)

subsection \<open>The log\<close>

lemma slice_last_le: "length (slice_last n xs) \<le> n"
  by (simp add: slice_last_def)

lemma slice_last_id: "length xs \<le> n \<Longrightarrow> slice_last n xs = xs"
  by (simp add: slice_last_def)

lemma slice_last_snoc: "slice_last n (slice_last n xs @ ys) = slice_last n (xs @ ys)"
proof (cases "length xs \<le> n")
  case True
  then show ?thesis by (simp add: slice_last_def)
next
  case False
  then have "length xs + length ys - (length xs - n + n) + (length xs - n)
             = length xs + length ys - n"
    by arith
  then show ?thesis by (simp add: slice_last_def)
qed

lemma logs_addLog: "logs (addLog m s) = slice_last 500 (logs s @ [(now s, m)])"
  by (simp add: addLog_def Let_def slice_last_def)

lemma logs_addLog_fold:
  "length (logs s) \<le> 500 \<Longrightarrow>
   logs (foldl (\<lambda>s e. addLog (snd e) (s\<lparr>now := fst e\<rparr>)) s es) = slice_last 500 (logs s @ es)"
proof (induction es arbitrary: s)
  case Nil
  then show ?case by (simp add: slice_last_id)
next
  case (Cons e es)
  have "length (logs (addLog (snd e) (s\<lparr>now := fst e\<rparr>))) \<le> 500"
    by (simp add: logs_addLog slice_last_le)
  from Cons.IH[OF this] show ?case
    by (simp add: logs_addLog slice_last_snoc)
qed

text \<open>
  C8: after every \<open>addLog\<close> the log has at most 500 entries, and it is the last 500 of the
  old log with the new entry behind it (so the oldest go first). After 10000 calls of
  \<open>addLog\<close>, at any times and with any messages, on a log within the cap, the log is
  exactly the last 500 of the entries, in their order.
\<close>

theorem addLog_bounded:
  "length (logs (addLog m s)) \<le> 500
   \<and> logs (addLog m s) = slice_last 500 (logs s @ [(now s, m)])
   \<and> (length (logs s) \<le> 500 \<and> length es = 10000 \<longrightarrow>
        logs (foldl (\<lambda>s e. addLog (snd e) (s\<lparr>now := fst e\<rparr>)) s es) = drop 9500 es
        \<and> length (logs (foldl (\<lambda>s e. addLog (snd e) (s\<lparr>now := fst e\<rparr>)) s es)) = 500)"
proof -
  have a: "logs (addLog m s) = slice_last 500 (logs s @ [(now s, m)])"
    by (rule logs_addLog)
  have b: "length (logs (addLog m s)) \<le> 500"
    unfolding a by (rule slice_last_le)
  have c: "logs (foldl (\<lambda>s e. addLog (snd e) (s\<lparr>now := fst e\<rparr>)) s es) = drop 9500 es"
    if "length (logs s) \<le> 500" "length es = 10000"
    using that by (simp add: logs_addLog_fold slice_last_def)
  from a b c show ?thesis by simp
qed

theorem addLog_bounded_witness:
  "length (logs (new_ProxyChecker sample_options)) \<le> 500
   \<and> length (map (\<lambda>i. (int i, LogStart i)) [0..<10000]) = 10000
   \<and> logs (foldl (\<lambda>s e. addLog (snd e) (s\<lparr>now := fst e\<rparr>)) (new_ProxyChecker sample_options)
             (map (\<lambda>i. (int i, LogStart i)) [0..<10000]))
       = drop 9500 (map (\<lambda>i. (int i, LogStart i)) [0..<10000])"
proof -
  have h: "length (logs (new_ProxyChecker sample_options)) \<le> 500
           \<and> length (map (\<lambda>i. (int i, LogStart i)) [0..<10000]) = 10000"
    by (simp add: new_ProxyChecker_def)
  from addLog_bounded[of LogStopped "new_ProxyChecker sample_options"
                         "map (\<lambda>i. (int i, LogStart i)) [0..<10000]"] h
  show ?thesis by blast
qed

subsection \<open>What each operation changes\<close>

lemma addLog_frame [simp]:
  "options (addLog m s) = options s"
  "stopped (addLog m s) = stopped s"
  "checked (addLog m s) = checked s"
  "working (addLog m s) = working s"
  "dead (addLog m s) = dead s"
  "total (addLog m s) = total s"
  "deadIds (addLog m s) = deadIds s"
  "myIp (addLog m s) = myIp s"
  "proxies (addLog m s) = proxies s"
  "queue (addLog m s) = queue s"
  "results (addLog m s) = results s"
  "workers (addLog m s) = workers s"
  "phase (addLog m s) = phase s"
  "now (addLog m s) = now s"
  "db (addLog m s) = db s"
  "emitted (addLog m s) = emitted s"
  "requests (addLog m s) = requests s"
  by (simp_all add: addLog_def Let_def)

lemma emitProgress_frame [simp]:
  "options (emitProgress l s) = options s"
  "stopped (emitProgress l s) = stopped s"
  "checked (emitProgress l s) = checked s"
  "working (emitProgress l s) = working s"
  "dead (emitProgress l s) = dead s"
  "total (emitProgress l s) = total s"
  "logs (emitProgress l s) = logs s"
  "deadIds (emitProgress l s) = deadIds s"
  "myIp (emitProgress l s) = myIp s"
  "proxies (emitProgress l s) = proxies s"
  "queue (emitProgress l s) = queue s"
  "results (emitProgress l s) = results s"
  "workers (emitProgress l s) = workers s"
  "phase (emitProgress l s) = phase s"
  "now (emitProgress l s) = now s"
  "db (emitProgress l s) = db s"
  "requests (emitProgress l s) = requests s"
  by (simp_all add: emitProgress_def)

lemma emitted_emitProgress [simp]: "emitted (emitProgress l s) = emitted s @ [snapshot l s]"
  by (simp add: emitProgress_def)

lemma snapshot_counters [simp]:
  "p_checked (snapshot l s) = checked s" "p_total (snapshot l s) = total s"
  "p_working (snapshot l s) = working s" "p_dead (snapshot l s) = dead s"
  "p_deleted (snapshot l s) = length (deadIds s)"
  "p_percent (snapshot l s) = percent_of (checked s) (total s)"
  "p_lastResult (snapshot None s) = None"
  by (simp_all add: snapshot_def)

lemma stop_frame [simp]:
  "options (stop s) = options s"
  "checked (stop s) = checked s"
  "working (stop s) = working s"
  "dead (stop s) = dead s"
  "total (stop s) = total s"
  "deadIds (stop s) = deadIds s"
  "myIp (stop s) = myIp s"
  "proxies (stop s) = proxies s"
  "queue (stop s) = queue s"
  "results (stop s) = results s"
  "workers (stop s) = workers s"
  "phase (stop s) = phase s"
  "now (stop s) = now s"
  "db (stop s) = db s"
  "emitted (stop s) = emitted s"
  "requests (stop s) = requests s"
  by (simp_all add: stop_def)

lemma stopped_stop [simp]: "stopped (stop s) = True"
  by (simp add: stop_def)

lemma detectMyIp_begin_frame [simp]:
  "options (detectMyIp_begin s) = options s"
  "stopped (detectMyIp_begin s) = stopped s"
  "checked (detectMyIp_begin s) = checked s"
  "working (detectMyIp_begin s) = working s"
  "dead (detectMyIp_begin s) = dead s"
  "total (detectMyIp_begin s) = total s"
  "deadIds (detectMyIp_begin s) = deadIds s"
  "myIp (detectMyIp_begin s) = myIp s"
  "proxies (detectMyIp_begin s) = proxies s"
  "queue (detectMyIp_begin s) = queue s"
  "results (detectMyIp_begin s) = results s"
  "workers (detectMyIp_begin s) = workers s"
  "phase (detectMyIp_begin s) = phase s"
  "now (detectMyIp_begin s) = now s"
  "db (detectMyIp_begin s) = db s"
  "emitted (detectMyIp_begin s) = emitted s"
  by (simp_all add: detectMyIp_begin_def Let_def)

lemma requests_detectMyIp_begin [simp]: "requests (detectMyIp_begin s) = requests s @ [GetMyIp]"
  by (simp add: detectMyIp_begin_def Let_def)

lemma detectMyIp_end_frame [simp]:
  "options (detectMyIp_end r s) = options s"
  "stopped (detectMyIp_end r s) = stopped s"
  "checked (detectMyIp_end r s) = checked s"
  "working (detectMyIp_end r s) = working s"
  "dead (detectMyIp_end r s) = dead s"
  "total (detectMyIp_end r s) = total s"
  "deadIds (detectMyIp_end r s) = deadIds s"
  "proxies (detectMyIp_end r s) = proxies s"
  "queue (detectMyIp_end r s) = queue s"
  "results (detectMyIp_end r s) = results s"
  "workers (detectMyIp_end r s) = workers s"
  "phase (detectMyIp_end r s) = phase s"
  "now (detectMyIp_end r s) = now s"
  "db (detectMyIp_end r s) = db s"
  "emitted (detectMyIp_end r s) = emitted s"
  "requests (detectMyIp_end r s) = requests s"
  by (simp_all add: detectMyIp_end_def Let_def split: reply.splits)

lemma checkProxy_begin_frame [simp]:
  "options (checkProxy_begin p s) = options s"
  "stopped (checkProxy_begin p s) = stopped s"
  "checked (checkProxy_begin p s) = checked s"
  "working (checkProxy_begin p s) = working s"
  "dead (checkProxy_begin p s) = dead s"
  "total (checkProxy_begin p s) = total s"
  "deadIds (checkProxy_begin p s) = deadIds s"
  "myIp (checkProxy_begin p s) = myIp s"
  "proxies (checkProxy_begin p s) = proxies s"
  "queue (checkProxy_begin p s) = queue s"
  "results (checkProxy_begin p s) = results s"
  "workers (checkProxy_begin p s) = workers s"
  "phase (checkProxy_begin p s) = phase s"
  "now (checkProxy_begin p s) = now s"
  "db (checkProxy_begin p s) = db s"
  "emitted (checkProxy_begin p s) = emitted s"
  by (simp_all add: checkProxy_begin_def Let_def)

lemma requests_checkProxy_begin [simp]:
  "requests (checkProxy_begin p s) = requests s @ [GetTest p]"
  by (simp add: checkProxy_begin_def Let_def)
lemma record_result_frame [simp]:
  "options (record_result r s) = options s"
  "stopped (record_result r s) = stopped s"
  "total (record_result r s) = total s"
  "logs (record_result r s) = logs s"
  "myIp (record_result r s) = myIp s"
  "proxies (record_result r s) = proxies s"
  "queue (record_result r s) = queue s"
  "workers (record_result r s) = workers s"
  "phase (record_result r s) = phase s"
  "now (record_result r s) = now s"
  "requests (record_result r s) = requests s"
  by (simp_all add: record_result_def Let_def)

lemma record_result_effect [simp]:
  "results (record_result r s) = results s @ [r]"
  "checked (record_result r s) = checked s + 1"
  "working (record_result r s) = (if cr_status r = Working then working s + 1 else working s)"
  "dead (record_result r s) = (if cr_status r = Working then dead s else dead s + 1)"
  "deadIds (record_result r s)
     = (if cr_status r = Dead \<and> opt_deleteDead (options s) then deadIds s @ [cr_id r] else deadIds s)"
  "db (record_result r s)
     = (if cr_status r = Dead \<and> opt_deleteDead (options s) then db s
        else db s @ [UpdateProxy (cr_id r) \<lparr>up_status = cr_status r, up_latency = cr_latency r,
                       up_anonymity = cr_anonymity r, up_last_checked = now s div 1000\<rparr>])"
  by (simp_all add: record_result_def Let_def)

lemma emitted_record_result [simp]:
  "emitted (record_result r s) = emitted s @ [snapshot (Some r) (record_result r s)]"
  by (simp add: record_result_def Let_def emitProgress_def snapshot_def)

lemma processNext_frame [simp]:
  "options (snd (processNext s)) = options s"
  "stopped (snd (processNext s)) = stopped s"
  "checked (snd (processNext s)) = checked s"
  "working (snd (processNext s)) = working s"
  "dead (snd (processNext s)) = dead s"
  "total (snd (processNext s)) = total s"
  "deadIds (snd (processNext s)) = deadIds s"
  "myIp (snd (processNext s)) = myIp s"
  "proxies (snd (processNext s)) = proxies s"
  "results (snd (processNext s)) = results s"
  "workers (snd (processNext s)) = workers s"
  "phase (snd (processNext s)) = phase s"
  "now (snd (processNext s)) = now s"
  "db (snd (processNext s)) = db s"
  "emitted (snd (processNext s)) = emitted s"
  by (simp_all add: processNext_def Let_def split: list.splits)

lemma processNext_effect [simp]:
  "fst (processNext s)
     = (if queue s = [] \<or> stopped s then Returned else AwaitProbe (hd (queue s)) (now s))"
  "queue (snd (processNext s)) = (if stopped s then queue s else tl (queue s))"
  "requests (snd (processNext s))
     = (if queue s = [] \<or> stopped s then requests s else requests s @ [GetTest (hd (queue s))])"
  by (simp_all add: processNext_def Let_def split: list.splits)

lemma finish_frame [simp]:
  "options (finish s) = options s"
  "stopped (finish s) = stopped s"
  "checked (finish s) = checked s"
  "working (finish s) = working s"
  "dead (finish s) = dead s"
  "total (finish s) = total s"
  "deadIds (finish s) = deadIds s"
  "myIp (finish s) = myIp s"
  "proxies (finish s) = proxies s"
  "queue (finish s) = queue s"
  "results (finish s) = results s"
  "workers (finish s) = workers s"
  "now (finish s) = now s"
  "requests (finish s) = requests s"
  by (simp_all add: finish_def Let_def)

lemma finish_effect [simp]:
  "phase (finish s) = Finished"
  "db (finish s) = db s @ (if opt_deleteDead (options s) \<and> deadIds s \<noteq> []
                           then [DeleteProxies (deadIds s)] else [])"
  by (simp_all add: finish_def Let_def)

lemma emitted_finish [simp]: "emitted (finish s) = emitted s @ [snapshot None (finish s)]"
  by (simp add: finish_def Let_def emitProgress_def snapshot_def)

lemma checkProxy_reply_frame [simp]:
  "options (snd (checkProxy_reply p t0 r s)) = options s"
  "stopped (snd (checkProxy_reply p t0 r s)) = stopped s"
  "checked (snd (checkProxy_reply p t0 r s)) = checked s"
  "working (snd (checkProxy_reply p t0 r s)) = working s"
  "dead (snd (checkProxy_reply p t0 r s)) = dead s"
  "total (snd (checkProxy_reply p t0 r s)) = total s"
  "deadIds (snd (checkProxy_reply p t0 r s)) = deadIds s"
  "myIp (snd (checkProxy_reply p t0 r s)) = myIp s"
  "proxies (snd (checkProxy_reply p t0 r s)) = proxies s"
  "queue (snd (checkProxy_reply p t0 r s)) = queue s"
  "results (snd (checkProxy_reply p t0 r s)) = results s"
  "workers (snd (checkProxy_reply p t0 r s)) = workers s"
  "phase (snd (checkProxy_reply p t0 r s)) = phase s"
  "now (snd (checkProxy_reply p t0 r s)) = now s"
  "db (snd (checkProxy_reply p t0 r s)) = db s"
  "emitted (snd (checkProxy_reply p t0 r s)) = emitted s"
  by (simp_all add: checkProxy_reply_def Let_def split: reply.splits)

lemma checkProxy_anon_frame [simp]:
  "options (snd (checkProxy_anon p res lat r s)) = options s"
  "stopped (snd (checkProxy_anon p res lat r s)) = stopped s"
  "checked (snd (checkProxy_anon p res lat r s)) = checked s"
  "working (snd (checkProxy_anon p res lat r s)) = working s"
  "dead (snd (checkProxy_anon p res lat r s)) = dead s"
  "total (snd (checkProxy_anon p res lat r s)) = total s"
  "deadIds (snd (checkProxy_anon p res lat r s)) = deadIds s"
  "myIp (snd (checkProxy_anon p res lat r s)) = myIp s"
  "proxies (snd (checkProxy_anon p res lat r s)) = proxies s"
  "queue (snd (checkProxy_anon p res lat r s)) = queue s"
  "results (snd (checkProxy_anon p res lat r s)) = results s"
  "workers (snd (checkProxy_anon p res lat r s)) = workers s"
  "phase (snd (checkProxy_anon p res lat r s)) = phase s"
  "now (snd (checkProxy_anon p res lat r s)) = now s"
  "db (snd (checkProxy_anon p res lat r s)) = db s"
  "emitted (snd (checkProxy_anon p res lat r s)) = emitted s"
  "requests (snd (checkProxy_anon p res lat r s)) = requests s"
  by (simp_all add: checkProxy_anon_def Let_def)
lemma spawn_frame [simp]:
  "options (spawn s) = options s"
  "stopped (spawn s) = stopped s"
  "checked (spawn s) = checked s"
  "working (spawn s) = working s"
  "dead (spawn s) = dead s"
  "total (spawn s) = total s"
  "deadIds (spawn s) = deadIds s"
  "myIp (spawn s) = myIp s"
  "proxies (spawn s) = proxies s"
  "results (spawn s) = results s"
  "phase (spawn s) = phase s"
  "now (spawn s) = now s"
  "db (spawn s) = db s"
  "emitted (spawn s) = emitted s"
  by (simp_all add: spawn_def case_prod_beta)

lemma spawn_effect [simp]:
  "workers (spawn s)
     = workers s @ [if queue s = [] \<or> stopped s then Returned else AwaitProbe (hd (queue s)) (now s)]"
  "queue (spawn s) = (if stopped s then queue s else tl (queue s))"
  "requests (spawn s)
     = (if queue s = [] \<or> stopped s then requests s else requests s @ [GetTest (hd (queue s))])"
  by (simp_all add: spawn_def case_prod_beta)

lemma spawn_workers_frame [simp]:
  "options (spawn_workers n s) = options s"
  "stopped (spawn_workers n s) = stopped s"
  "checked (spawn_workers n s) = checked s"
  "working (spawn_workers n s) = working s"
  "dead (spawn_workers n s) = dead s"
  "total (spawn_workers n s) = total s"
  "deadIds (spawn_workers n s) = deadIds s"
  "myIp (spawn_workers n s) = myIp s"
  "proxies (spawn_workers n s) = proxies s"
  "results (spawn_workers n s) = results s"
  "phase (spawn_workers n s) = phase s"
  "now (spawn_workers n s) = now s"
  "db (spawn_workers n s) = db s"
  "emitted (spawn_workers n s) = emitted s"
  by (induction n arbitrary: s; simp)+

lemma spawn_workers_stopped:
  "stopped s \<Longrightarrow>
   queue (spawn_workers n s) = queue s
   \<and> workers (spawn_workers n s) = workers s @ replicate n Returned
   \<and> requests (spawn_workers n s) = requests s"
proof (induction n arbitrary: s)
  case 0
  then show ?case by simp
next
  case (Suc n)
  have "stopped (spawn s)" using Suc.prems by simp
  from Suc.IH[OF this] show ?case
    using Suc.prems by (simp add: replicate_app_Cons_same)
qed

lemma spawn_workers_running:
  "\<not> stopped s \<Longrightarrow>
   queue (spawn_workers n s) = drop n (queue s)
   \<and> workers (spawn_workers n s)
       = workers s @ map (\<lambda>p. AwaitProbe p (now s)) (take n (queue s))
         @ replicate (n - length (queue s)) Returned
   \<and> requests (spawn_workers n s) = requests s @ map GetTest (take n (queue s))"
proof (induction n arbitrary: s)
  case 0
  then show ?case by simp
next
  case (Suc n)
  have ns: "\<not> stopped (spawn s)" using Suc.prems by simp
  show ?case
  proof (cases "queue s")
    case Nil
    with Suc.IH[OF ns] Suc.prems show ?thesis
      by (simp add: replicate_app_Cons_same)
  next
    case (Cons p rest)
    with Suc.IH[OF ns] Suc.prems show ?thesis
      by simp
  qed
qed

lemma filter_active_update:
  "i < length ws \<Longrightarrow>
   length (filter active (ws[i := w])) + (if active (ws ! i) then 1 else 0)
   = length (filter active ws) + (if active w then 1 else 0)"
proof (induction ws arbitrary: i)
  case Nil
  then show ?case by simp
next
  case (Cons a ws)
  then show ?case by (cases i) auto
qed

lemma all_returned_inflight: "all_returned s \<longleftrightarrow> inflight s = 0"
  by (simp add: all_returned_def inflight_def active_def list_all_iff filter_empty_conv)

lemma await_all_cases:
  "await_all s = (if phase s = Running \<and> inflight s = 0 then finish s else s)"
  by (simp add: await_all_def all_returned_inflight)

lemma workers_await_all [simp]: "workers (await_all s) = workers s"
  and queue_await_all [simp]: "queue (await_all s) = queue s"
  and requests_await_all [simp]: "requests (await_all s) = requests s"
  and results_await_all [simp]: "results (await_all s) = results s"
  and checked_await_all [simp]: "checked (await_all s) = checked s"
  and working_await_all [simp]: "working (await_all s) = working s"
  and dead_await_all [simp]: "dead (await_all s) = dead s"
  and total_await_all [simp]: "total (await_all s) = total s"
  and stopped_await_all [simp]: "stopped (await_all s) = stopped s"
  and options_await_all [simp]: "options (await_all s) = options s"
  and deadIds_await_all [simp]: "deadIds (await_all s) = deadIds s"
  and myIp_await_all [simp]: "myIp (await_all s) = myIp s"
  and proxies_await_all [simp]: "proxies (await_all s) = proxies s"
  and now_await_all [simp]: "now (await_all s) = now s"
  by (simp_all add: await_all_def)

lemma inflight_await_all [simp]: "inflight (await_all s) = inflight s"
  by (simp add: inflight_def)

text \<open>The effect of \<open>continue\<close>.\<close>

lemma continue_frame [simp]:
  "options (continue i res s) = options s"
  "stopped (continue i res s) = stopped s"
  "total (continue i res s) = total s"
  "myIp (continue i res s) = myIp s"
  "proxies (continue i res s) = proxies s"
  "now (continue i res s) = now s"
  by (simp_all add: continue_def case_prod_beta)

lemma continue_effect [simp]:
  "results (continue i res s) = results s @ [res]"
  "checked (continue i res s) = checked s + 1"
  "working (continue i res s) = (if cr_status res = Working then working s + 1 else working s)"
  "dead (continue i res s) = (if cr_status res = Working then dead s else dead s + 1)"
  "deadIds (continue i res s) = deadIds (record_result res s)"
  "queue (continue i res s) = (if stopped s then queue s else tl (queue s))"
  "requests (continue i res s)
     = (if queue s = [] \<or> stopped s then requests s else requests s @ [GetTest (hd (queue s))])"
  "workers (continue i res s)
     = (workers s)[i := (if queue s = [] \<or> stopped s then Returned
                         else AwaitProbe (hd (queue s)) (now s))]"
  by (simp_all add: continue_def case_prod_beta)

lemma phase_continue:
  "phase (continue i res s)
     = (if phase s = Running \<and> inflight (continue i res s) = 0 then Finished else phase s)"
  by (simp add: continue_def case_prod_beta await_all_cases inflight_def)

lemma db_continue:
  "db (continue i res s)
     = db (record_result res s)
       @ (if phase (continue i res s) = Finished \<and> phase s = Running \<and> opt_deleteDead (options s)
             \<and> deadIds (record_result res s) \<noteq> []
          then [DeleteProxies (deadIds (record_result res s))] else [])"
  by (simp add: continue_def case_prod_beta await_all_cases inflight_def)

lemma emitted_continue:
  "emitted (continue i res s)
     = emitted s @ [snapshot (Some res) (record_result res s)]
       @ (if phase (continue i res s) = Finished \<and> phase s = Running
          then [snapshot None (continue i res s)] else [])"
  by (simp add: continue_def case_prod_beta await_all_cases inflight_def)

subsection \<open>The shape of a step\<close>

lemma addLog_shape: "\<exists>l. addLog m s = s\<lparr>logs := l\<rparr>"
  by (auto simp: addLog_def Let_def)

lemma checkProxy_reply_dead:
  "\<not> ok_reply r \<Longrightarrow> \<exists>l. checkProxy_reply p t0 r s = (Inl (result0 p), s\<lparr>logs := l\<rparr>)"
  by (cases r) (auto simp: checkProxy_reply_def ok_reply_def result0_def addLog_def Let_def)

lemma checkProxy_reply_plain:
  "ok_reply r \<Longrightarrow> \<not> (opt_checkAnonymity (options s) \<and> myIp s \<noteq> []) \<Longrightarrow>
   \<exists>l. checkProxy_reply p t0 r s
        = (Inl ((working_result p (now s - t0))\<lparr>cr_anonymity := Some Unknown\<rparr>), s\<lparr>logs := l\<rparr>)"
  by (cases r)
     (auto simp: checkProxy_reply_def ok_reply_def result0_def working_result_def addLog_def Let_def)

lemma checkProxy_reply_anon:
  "ok_reply r \<Longrightarrow> opt_checkAnonymity (options s) \<Longrightarrow> myIp s \<noteq> [] \<Longrightarrow>
   checkProxy_reply p t0 r s
     = (Inr (AwaitAnon p (working_result p (now s - t0)) (now s - t0)),
        s\<lparr>requests := requests s @ [GetHeaders p]\<rparr>)"
  by (cases r)
     (auto simp: checkProxy_reply_def ok_reply_def result0_def working_result_def Let_def)

lemma checkProxy_anon_shape:
  "\<exists>l. checkProxy_anon p res lat r s
        = (res\<lparr>cr_anonymity := Some (checkAnonymity (myIp s) r)\<rparr>, s\<lparr>logs := l\<rparr>)"
  by (auto simp: checkProxy_anon_def addLog_def Let_def)

text \<open>
  A reply to worker \<open>i\<close> does one of three things: nothing (nobody waits), it moves the
  worker from the test request to the anonymity request, or it completes an outcome,
  which \<open>continue\<close> records.
\<close>

lemma resume_probe_dead:
  "workers s ! i = AwaitProbe p t0 \<Longrightarrow> \<not> ok_reply r \<Longrightarrow>
   \<exists>l. resume i r s = continue i (result0 p) (s\<lparr>logs := l\<rparr>)"
  using checkProxy_reply_dead[of r p t0 s] by (auto simp: resume_def)

lemma resume_probe_plain:
  "workers s ! i = AwaitProbe p t0 \<Longrightarrow> ok_reply r \<Longrightarrow>
   \<not> (opt_checkAnonymity (options s) \<and> myIp s \<noteq> []) \<Longrightarrow>
   \<exists>l. resume i r s
        = continue i ((working_result p (now s - t0))\<lparr>cr_anonymity := Some Unknown\<rparr>) (s\<lparr>logs := l\<rparr>)"
  using checkProxy_reply_plain[of r s p t0] by (auto simp: resume_def)

lemma resume_probe_anon:
  "workers s ! i = AwaitProbe p t0 \<Longrightarrow> ok_reply r \<Longrightarrow>
   opt_checkAnonymity (options s) \<Longrightarrow> myIp s \<noteq> [] \<Longrightarrow>
   resume i r s
     = s\<lparr>requests := requests s @ [GetHeaders p],
         workers := (workers s)[i := AwaitAnon p (working_result p (now s - t0)) (now s - t0)]\<rparr>"
  by (simp add: resume_def checkProxy_reply_anon)

lemma resume_anon:
  "workers s ! i = AwaitAnon p res lat \<Longrightarrow>
   \<exists>l. resume i r s
        = continue i (res\<lparr>cr_anonymity := Some (checkAnonymity (myIp s) r)\<rparr>) (s\<lparr>logs := l\<rparr>)"
  using checkProxy_anon_shape[of p res lat r s] by (auto simp: resume_def)

lemma resume_returned: "workers s ! i = Returned \<Longrightarrow> resume i r s = s"
  by (simp add: resume_def)

lemma stop_shape: "\<exists>l. stop s = s\<lparr>stopped := True, logs := l\<rparr>"
  by (auto simp: stop_def addLog_def Let_def)

lemma detectMyIp_end_shape:
  "detectMyIp_end r s = s\<lparr>myIp := myIp (detectMyIp_end r s), logs := logs (detectMyIp_end r s)\<rparr>"
  by (cases r) (simp_all add: detectMyIp_end_def addLog_def Let_def split: option.splits)

subsection \<open>Requests and workers\<close>

lemma test_requests_simps [simp]:
  "test_requests [] = []"
  "test_requests (xs @ ys) = test_requests xs @ test_requests ys"
  "test_requests (GetTest p # xs) = p # test_requests xs"
  "test_requests (GetHeaders p # xs) = test_requests xs"
  "test_requests (GetMyIp # xs) = test_requests xs"
  "test_requests (map GetTest ps) = ps"
  by (simp_all add: test_requests_def) (induction ps, simp_all)

lemma header_requests_simps [simp]:
  "header_requests [] = []"
  "header_requests (xs @ ys) = header_requests xs @ header_requests ys"
  "header_requests (GetTest p # xs) = header_requests xs"
  "header_requests (GetHeaders p # xs) = p # header_requests xs"
  "header_requests (GetMyIp # xs) = header_requests xs"
  "header_requests (map GetTest ps) = []"
  by (simp_all add: header_requests_def)

lemma update_calls_simps [simp]:
  "update_calls [] = []"
  "update_calls (xs @ ys) = update_calls xs @ update_calls ys"
  "update_calls (UpdateProxy i u # xs) = (i, u) # update_calls xs"
  "update_calls (DeleteProxies ids # xs) = update_calls xs"
  by (simp_all add: update_calls_def)

lemma delete_calls_simps [simp]:
  "delete_calls [] = []"
  "delete_calls (xs @ ys) = delete_calls xs @ delete_calls ys"
  "delete_calls (UpdateProxy i u # xs) = delete_calls xs"
  "delete_calls (DeleteProxies ids # xs) = ids # delete_calls xs"
  by (simp_all add: delete_calls_def)

lemma observed_update [simp]:
  "probed (s\<lparr>requests := rq\<rparr>) = test_requests rq"
  "anon_probed (s\<lparr>requests := rq\<rparr>) = header_requests rq"
  "updates (s\<lparr>db := cs\<rparr>) = update_calls cs"
  "deletions (s\<lparr>db := cs\<rparr>) = delete_calls cs"
  "inflight (s\<lparr>workers := ws\<rparr>) = length (filter active ws)"
  by (simp_all add: probed_def anon_probed_def updates_def deletions_def inflight_def)

lemma probed_cong: "requests s = requests s' \<Longrightarrow> probed s = probed s'"
  by (simp add: probed_def)

lemma inflight_cong: "workers s = workers s' \<Longrightarrow> inflight s = inflight s'"
  by (simp add: inflight_def)

lemma inflight_frames [simp]:
  "inflight (finish s) = inflight s"
  "inflight (addLog m s) = inflight s"
  "inflight (emitProgress l s) = inflight s"
  "inflight (record_result res s) = inflight s"
  "inflight (stop s) = inflight s"
  "inflight (detectMyIp_end r s) = inflight s"
  by (simp_all add: inflight_def)

lemma probed_frames [simp]:
  "probed (finish s) = probed s"
  "probed (addLog m s) = probed s"
  "probed (emitProgress l s) = probed s"
  "probed (record_result res s) = probed s"
  "probed (stop s) = probed s"
  "probed (detectMyIp_end r s) = probed s"
  "probed (await_all s) = probed s"
  by (simp_all add: probed_def)

lemma probed_continue:
  "probed (continue i res s) = probed s @ (if queue s = [] \<or> stopped s then [] else [hd (queue s)])"
  by (simp add: probed_def)

lemma inflight_continue:
  "i < length (workers s) \<Longrightarrow> active (workers s ! i) \<Longrightarrow>
   inflight (continue i res s) + 1 = inflight s + (if queue s = [] \<or> stopped s then 0 else 1)"
  using filter_active_update[of i "workers s"
          "if queue s = [] \<or> stopped s then Returned else AwaitProbe (hd (queue s)) (now s)"]
  by (simp add: inflight_def active_def split: if_splits)

lemma inflight_update_active:
  "i < length (workers s) \<Longrightarrow> active (workers s ! i) \<Longrightarrow> active w \<Longrightarrow>
   inflight (s\<lparr>requests := rq, workers := (workers s)[i := w]\<rparr>) = inflight s"
  using filter_active_update[of i "workers s" w] by (simp add: inflight_def)

subsection \<open>The effect of \<open>start_workers\<close>\<close>

lemma worker_count_le: "worker_count s \<le> length (proxies s)"
  by (simp add: worker_count_def)

lemma start_workers_frame [simp]:
  "options (start_workers s) = options s"
  "stopped (start_workers s) = stopped s"
  "checked (start_workers s) = checked s"
  "working (start_workers s) = working s"
  "dead (start_workers s) = dead s"
  "total (start_workers s) = total s"
  "deadIds (start_workers s) = deadIds s"
  "myIp (start_workers s) = myIp s"
  "proxies (start_workers s) = proxies s"
  "now (start_workers s) = now s"
  "results (start_workers s) = []"
  by (simp_all add: start_workers_def Let_def)

lemma start_workers_effect:
  "queue (start_workers s) = (if stopped s then proxies s else drop (worker_count s) (proxies s))"
  "workers (start_workers s)
     = (if stopped s then replicate (worker_count s) Returned
        else map (\<lambda>p. AwaitProbe p (now s)) (take (worker_count s) (proxies s)))"
  "requests (start_workers s)
     = (if stopped s then requests s
        else requests s @ map GetTest (take (worker_count s) (proxies s)))"
proof -
  let ?s2 = "(emitProgress None s)\<lparr>results := [], queue := proxies (emitProgress None s),
                                      workers := [], phase := Running\<rparr>"
  have sw: "start_workers s = await_all (spawn_workers (worker_count s) ?s2)"
    by (simp add: start_workers_def Let_def worker_count_def)
  have le: "worker_count s - length (proxies s) = 0"
    using worker_count_le[of s] by simp
  show "queue (start_workers s) = (if stopped s then proxies s else drop (worker_count s) (proxies s))"
    unfolding sw
    using spawn_workers_stopped[of ?s2 "worker_count s"] spawn_workers_running[of ?s2 "worker_count s"]
    by simp
  show "workers (start_workers s)
     = (if stopped s then replicate (worker_count s) Returned
        else map (\<lambda>p. AwaitProbe p (now s)) (take (worker_count s) (proxies s)))"
    unfolding sw
    using spawn_workers_stopped[of ?s2 "worker_count s"] spawn_workers_running[of ?s2 "worker_count s"] le
    by simp
  show "requests (start_workers s)
     = (if stopped s then requests s
        else requests s @ map GetTest (take (worker_count s) (proxies s)))"
    unfolding sw
    using spawn_workers_stopped[of ?s2 "worker_count s"] spawn_workers_running[of ?s2 "worker_count s"]
    by simp
qed

lemma inflight_start_workers:
  "inflight (start_workers s) = (if stopped s then 0 else worker_count s)"
  using worker_count_le[of s]
  by (simp add: inflight_def start_workers_effect active_def filter_map comp_def)

lemma probed_start_workers:
  "probed (start_workers s) = probed s @ (if stopped s then [] else take (worker_count s) (proxies s))"
  by (simp add: probed_def start_workers_effect)

lemma phase_start_workers:
  "phase (start_workers s) = (if inflight (start_workers s) = 0 then Finished else Running)"
proof -
  let ?s2 = "(emitProgress None s)\<lparr>results := [], queue := proxies (emitProgress None s),
                                      workers := [], phase := Running\<rparr>"
  have sw: "start_workers s = await_all (spawn_workers (worker_count s) ?s2)"
    by (simp add: start_workers_def Let_def worker_count_def)
  show ?thesis
    unfolding sw by (simp add: await_all_cases)
qed

subsection \<open>The bookkeeping is preserved\<close>

lemma probed_update [simp]:
  "probed (s\<lparr>options := x0\<rparr>) = probed s"
  "probed (s\<lparr>stopped := x1\<rparr>) = probed s"
  "probed (s\<lparr>checked := x2\<rparr>) = probed s"
  "probed (s\<lparr>working := x3\<rparr>) = probed s"
  "probed (s\<lparr>dead := x4\<rparr>) = probed s"
  "probed (s\<lparr>total := x5\<rparr>) = probed s"
  "probed (s\<lparr>logs := x6\<rparr>) = probed s"
  "probed (s\<lparr>deadIds := x7\<rparr>) = probed s"
  "probed (s\<lparr>myIp := x8\<rparr>) = probed s"
  "probed (s\<lparr>proxies := x9\<rparr>) = probed s"
  "probed (s\<lparr>queue := x10\<rparr>) = probed s"
  "probed (s\<lparr>results := x11\<rparr>) = probed s"
  "probed (s\<lparr>workers := x12\<rparr>) = probed s"
  "probed (s\<lparr>phase := x13\<rparr>) = probed s"
  "probed (s\<lparr>now := x14\<rparr>) = probed s"
  "probed (s\<lparr>db := x15\<rparr>) = probed s"
  "probed (s\<lparr>emitted := x16\<rparr>) = probed s"
  by (simp_all add: probed_def)

lemma anon_probed_update [simp]:
  "anon_probed (s\<lparr>options := x0\<rparr>) = anon_probed s"
  "anon_probed (s\<lparr>stopped := x1\<rparr>) = anon_probed s"
  "anon_probed (s\<lparr>checked := x2\<rparr>) = anon_probed s"
  "anon_probed (s\<lparr>working := x3\<rparr>) = anon_probed s"
  "anon_probed (s\<lparr>dead := x4\<rparr>) = anon_probed s"
  "anon_probed (s\<lparr>total := x5\<rparr>) = anon_probed s"
  "anon_probed (s\<lparr>logs := x6\<rparr>) = anon_probed s"
  "anon_probed (s\<lparr>deadIds := x7\<rparr>) = anon_probed s"
  "anon_probed (s\<lparr>myIp := x8\<rparr>) = anon_probed s"
  "anon_probed (s\<lparr>proxies := x9\<rparr>) = anon_probed s"
  "anon_probed (s\<lparr>queue := x10\<rparr>) = anon_probed s"
  "anon_probed (s\<lparr>results := x11\<rparr>) = anon_probed s"
  "anon_probed (s\<lparr>workers := x12\<rparr>) = anon_probed s"
  "anon_probed (s\<lparr>phase := x13\<rparr>) = anon_probed s"
  "anon_probed (s\<lparr>now := x14\<rparr>) = anon_probed s"
  "anon_probed (s\<lparr>db := x15\<rparr>) = anon_probed s"
  "anon_probed (s\<lparr>emitted := x16\<rparr>) = anon_probed s"
  by (simp_all add: anon_probed_def)

lemma inflight_update [simp]:
  "inflight (s\<lparr>options := x0\<rparr>) = inflight s"
  "inflight (s\<lparr>stopped := x1\<rparr>) = inflight s"
  "inflight (s\<lparr>checked := x2\<rparr>) = inflight s"
  "inflight (s\<lparr>working := x3\<rparr>) = inflight s"
  "inflight (s\<lparr>dead := x4\<rparr>) = inflight s"
  "inflight (s\<lparr>total := x5\<rparr>) = inflight s"
  "inflight (s\<lparr>logs := x6\<rparr>) = inflight s"
  "inflight (s\<lparr>deadIds := x7\<rparr>) = inflight s"
  "inflight (s\<lparr>myIp := x8\<rparr>) = inflight s"
  "inflight (s\<lparr>proxies := x9\<rparr>) = inflight s"
  "inflight (s\<lparr>queue := x10\<rparr>) = inflight s"
  "inflight (s\<lparr>results := x11\<rparr>) = inflight s"
  "inflight (s\<lparr>phase := x13\<rparr>) = inflight s"
  "inflight (s\<lparr>now := x14\<rparr>) = inflight s"
  "inflight (s\<lparr>db := x15\<rparr>) = inflight s"
  "inflight (s\<lparr>emitted := x16\<rparr>) = inflight s"
  "inflight (s\<lparr>requests := x17\<rparr>) = inflight s"
  by (simp_all add: inflight_def)

lemma updates_update [simp]:
  "updates (s\<lparr>options := x0\<rparr>) = updates s"
  "updates (s\<lparr>stopped := x1\<rparr>) = updates s"
  "updates (s\<lparr>checked := x2\<rparr>) = updates s"
  "updates (s\<lparr>working := x3\<rparr>) = updates s"
  "updates (s\<lparr>dead := x4\<rparr>) = updates s"
  "updates (s\<lparr>total := x5\<rparr>) = updates s"
  "updates (s\<lparr>logs := x6\<rparr>) = updates s"
  "updates (s\<lparr>deadIds := x7\<rparr>) = updates s"
  "updates (s\<lparr>myIp := x8\<rparr>) = updates s"
  "updates (s\<lparr>proxies := x9\<rparr>) = updates s"
  "updates (s\<lparr>queue := x10\<rparr>) = updates s"
  "updates (s\<lparr>results := x11\<rparr>) = updates s"
  "updates (s\<lparr>workers := x12\<rparr>) = updates s"
  "updates (s\<lparr>phase := x13\<rparr>) = updates s"
  "updates (s\<lparr>now := x14\<rparr>) = updates s"
  "updates (s\<lparr>emitted := x16\<rparr>) = updates s"
  "updates (s\<lparr>requests := x17\<rparr>) = updates s"
  by (simp_all add: updates_def)

lemma deletions_update [simp]:
  "deletions (s\<lparr>options := x0\<rparr>) = deletions s"
  "deletions (s\<lparr>stopped := x1\<rparr>) = deletions s"
  "deletions (s\<lparr>checked := x2\<rparr>) = deletions s"
  "deletions (s\<lparr>working := x3\<rparr>) = deletions s"
  "deletions (s\<lparr>dead := x4\<rparr>) = deletions s"
  "deletions (s\<lparr>total := x5\<rparr>) = deletions s"
  "deletions (s\<lparr>logs := x6\<rparr>) = deletions s"
  "deletions (s\<lparr>deadIds := x7\<rparr>) = deletions s"
  "deletions (s\<lparr>myIp := x8\<rparr>) = deletions s"
  "deletions (s\<lparr>proxies := x9\<rparr>) = deletions s"
  "deletions (s\<lparr>queue := x10\<rparr>) = deletions s"
  "deletions (s\<lparr>results := x11\<rparr>) = deletions s"
  "deletions (s\<lparr>workers := x12\<rparr>) = deletions s"
  "deletions (s\<lparr>phase := x13\<rparr>) = deletions s"
  "deletions (s\<lparr>now := x14\<rparr>) = deletions s"
  "deletions (s\<lparr>emitted := x16\<rparr>) = deletions s"
  "deletions (s\<lparr>requests := x17\<rparr>) = deletions s"
  by (simp_all add: deletions_def)

lemma consistent_update [simp]:
  "consistent (s\<lparr>logs := l\<rparr>) = consistent s"
  "consistent (s\<lparr>now := t\<rparr>) = consistent s"
  "consistent (s\<lparr>stopped := b\<rparr>) = consistent s"
  "consistent (s\<lparr>myIp := x\<rparr>) = consistent s"
  by (simp_all add: consistent_def inflight_def probed_def)

lemma consistent_stop: "consistent (stop s) = consistent s"
  by (simp add: consistent_def)

lemma consistent_detectMyIp_end: "consistent (detectMyIp_end r s) = consistent s"
  by (simp add: consistent_def)

lemma consistent_continue:
  assumes "consistent s" "phase s = Running" "i < length (workers s)" "active (workers s ! i)"
  shows "consistent (continue i res s)"
proof -
  note ic = inflight_continue[OF assms(3,4), of res]
  note pc = probed_continue[of i res s]
  note ph = phase_continue[of i res s]
  show ?thesis
  proof (cases "queue s = [] \<or> stopped s")
    case True
    with assms(1,2) ic pc ph show ?thesis
      by (auto simp: consistent_def)
  next
    case False
    then have "hd (queue s) # tl (queue s) = queue s" by simp
    with False assms(1,2) ic pc ph show ?thesis
      by (auto simp: consistent_def)
  qed
qed

lemma consistent_anon:
  assumes "consistent s" "phase s = Running" "i < length (workers s)" "active (workers s ! i)"
  shows "consistent (s\<lparr>requests := requests s @ [GetHeaders p],
                       workers := (workers s)[i := AwaitAnon q res lat]\<rparr>)"
proof -
  have "inflight (s\<lparr>requests := requests s @ [GetHeaders p],
                   workers := (workers s)[i := AwaitAnon q res lat]\<rparr>) = inflight s"
    by (rule inflight_update_active[OF assms(3,4)]) (simp add: active_def)
  moreover have "probed (s\<lparr>requests := requests s @ [GetHeaders p],
                   workers := (workers s)[i := AwaitAnon q res lat]\<rparr>) = probed s"
    by (simp add: probed_def)
  ultimately show ?thesis
    using assms(1,2) by (simp add: consistent_def)
qed

lemma consistent_start_workers:
  assumes "checked s = 0" "working s = 0" "dead s = 0" "total s = length (proxies s)"
    "probed s = []"
  shows "consistent (start_workers s)"
  using assms worker_count_le[of s]
  by (simp add: consistent_def inflight_start_workers probed_start_workers phase_start_workers
      start_workers_effect)

lemma consistent_resume:
  assumes "consistent s" "phase s = Running" "i < length (workers s)"
  shows "consistent (resume i r s)"
proof (cases "workers s ! i")
  case (AwaitProbe p t0)
  then have act: "active (workers s ! i)" by (simp add: active_def)
  show ?thesis
  proof (cases "ok_reply r")
    case False
    from resume_probe_dead[OF AwaitProbe False] obtain l
      where "resume i r s = continue i (result0 p) (s\<lparr>logs := l\<rparr>)" by blast
    then show ?thesis
      using consistent_continue[of "s\<lparr>logs := l\<rparr>" i "result0 p"] assms act by simp
  next
    case True
    show ?thesis
    proof (cases "opt_checkAnonymity (options s) \<and> myIp s \<noteq> []")
      case False
      from resume_probe_plain[OF AwaitProbe True False] obtain l
        where "resume i r s = continue i ((working_result p (now s - t0))\<lparr>cr_anonymity := Some Unknown\<rparr>)
                 (s\<lparr>logs := l\<rparr>)" by blast
      then show ?thesis
        using consistent_continue[of "s\<lparr>logs := l\<rparr>" i] assms act by simp
    next
      case anon: True
      then show ?thesis
        using resume_probe_anon[OF AwaitProbe True, of ] consistent_anon[OF assms act] by simp
    qed
  qed
next
  case (AwaitAnon p res lat)
  then have act: "active (workers s ! i)" by (simp add: active_def)
  from resume_anon[OF AwaitAnon] obtain l
    where "resume i r s = continue i (res\<lparr>cr_anonymity := Some (checkAnonymity (myIp s) r)\<rparr>)
             (s\<lparr>logs := l\<rparr>)" by blast
  then show ?thesis
    using consistent_continue[of "s\<lparr>logs := l\<rparr>" i] assms act by simp
next
  case Returned
  then show ?thesis using assms(1) by (simp add: resume_returned)
qed

lemma consistent_step: "consistent s \<Longrightarrow> consistent (step s e)"
proof (cases "snd e")
  case Stop
  assume "consistent s"
  with Stop show ?thesis by (simp add: step_def consistent_stop)
next
  case (IpReply r)
  assume c: "consistent s"
  show ?thesis
  proof (cases "phase s = Detecting")
    case True
    with c have "consistent (start_workers (detectMyIp_end r (s\<lparr>now := fst e\<rparr>)))"
      by (intro consistent_start_workers) (auto simp: consistent_def)
    with IpReply True show ?thesis by (simp add: step_def)
  next
    case False
    with IpReply c show ?thesis by (simp add: step_def)
  qed
next
  case (Reply i r)
  assume c: "consistent s"
  show ?thesis
  proof (cases "phase s = Running \<and> i < length (workers s)")
    case True
    then have "consistent (resume i r (s\<lparr>now := fst e\<rparr>))"
      using c by (intro consistent_resume) simp_all
    with Reply True show ?thesis by (simp add: step_def)
  next
    case False
    with Reply c show ?thesis by (auto simp: step_def)
  qed
qed

lemma checkAll_cases:
  "checkAll s0 ps t
   = (let s6 = addLog (LogCheckAnonymity (opt_checkAnonymity (options s0)))
                (addLog (LogDeleteDead (opt_deleteDead (options s0)))
                 (addLog (LogUrl (opt_testUrl (options s0)))
                  (addLog (LogThreads (opt_threads (options s0)) (opt_timeout (options s0)))
                   (addLog (LogStart (length ps))
                     (s0\<lparr>now := t, proxies := ps, stopped := False, checked := 0, working := 0,
                         dead := 0, total := length ps, logs := [], deadIds := []\<rparr>)))))
      in if opt_checkAnonymity (options s0) then (detectMyIp_begin s6)\<lparr>phase := Detecting\<rparr>
         else start_workers s6)"
  by (simp add: checkAll_def Let_def)

lemma consistent_checkAll:
  "consistent (checkAll (new_ProxyChecker opts) ps t0)"
proof (cases "opt_checkAnonymity opts")
  case True
  then show ?thesis
    by (simp add: checkAll_cases Let_def consistent_def new_ProxyChecker_def inflight_def
        probed_def)
next
  case False
  then show ?thesis
    unfolding checkAll_cases Let_def
    by (simp add: new_ProxyChecker_def) (rule consistent_start_workers; simp add: probed_def)
qed

lemma consistent_foldl: "consistent s \<Longrightarrow> consistent (foldl step s evs)"
  by (induction evs arbitrary: s) (simp_all add: consistent_step)

lemma consistent_run: "consistent (run opts ps t0 evs)"
  by (simp add: run_def consistent_foldl consistent_checkAll)

subsection \<open>The kinds of step\<close>

text \<open>
  An event stops the run, ends the resolution of the address and starts the workers,
  moves a worker on to its anonymity request, completes an outcome, or changes nothing
  but the clock.
\<close>

lemma step_Stop:
  "snd e = Stop \<Longrightarrow> \<exists>l. step s e = s\<lparr>now := fst e, stopped := True, logs := l\<rparr>"
  using stop_shape[of "s\<lparr>now := fst e\<rparr>"] by (auto simp: step_def)

lemma step_IpReply:
  "snd e = IpReply r \<Longrightarrow>
   step s e = (if phase s = Detecting then start_workers (detectMyIp_end r (s\<lparr>now := fst e\<rparr>))
               else s)"
  by (simp add: step_def)

lemma step_Reply:
  "snd e = Reply i r \<Longrightarrow>
   step s e = (if phase s = Running \<and> i < length (workers s) then resume i r (s\<lparr>now := fst e\<rparr>)
               else s)"
  by (simp add: step_def)

lemma step_cases [case_names Stop Detect Anon Complete Skip Tick]:
  obtains
    (Stop) l where "snd e = Stop" "step s e = s\<lparr>now := fst e, stopped := True, logs := l\<rparr>"
  | (Detect) r where "snd e = IpReply r" "phase s = Detecting"
      "step s e = start_workers (detectMyIp_end r (s\<lparr>now := fst e\<rparr>))"
  | (Anon) i r p t0 where "snd e = Reply i r" "phase s = Running" "i < length (workers s)"
      "workers s ! i = AwaitProbe p t0" "ok_reply r"
      "opt_checkAnonymity (options s)" "myIp s \<noteq> []"
      "step s e = s\<lparr>now := fst e, requests := requests s @ [GetHeaders p],
                     workers := (workers s)[i := AwaitAnon p (working_result p (fst e - t0)) (fst e - t0)]\<rparr>"
  | (Complete) i r res l where "snd e = Reply i r" "phase s = Running" "i < length (workers s)"
      "step s e = continue i res (s\<lparr>now := fst e, logs := l\<rparr>)"
      "(\<exists>p t0. workers s ! i = AwaitProbe p t0
          \<and> (if ok_reply r
              then \<not> (opt_checkAnonymity (options s) \<and> myIp s \<noteq> [])
                   \<and> res = (working_result p (fst e - t0))\<lparr>cr_anonymity := Some Unknown\<rparr>
              else res = result0 p))
       \<or> (\<exists>p res0 lat. workers s ! i = AwaitAnon p res0 lat
          \<and> res = res0\<lparr>cr_anonymity := Some (checkAnonymity (myIp s) r)\<rparr>)"
  | (Skip) "step s e = s"
  | (Tick) "step s e = s\<lparr>now := fst e\<rparr>"
proof (cases "snd e")
  case Stop
  from step_Stop[OF Stop, of s] obtain l
    where "step s e = s\<lparr>now := fst e, stopped := True, logs := l\<rparr>" by blast
  with Stop show ?thesis by (rule that(1))
next
  case (IpReply r)
  show ?thesis
  proof (cases "phase s = Detecting")
    case True
    with step_IpReply[OF IpReply, of s]
    have "step s e = start_workers (detectMyIp_end r (s\<lparr>now := fst e\<rparr>))" by simp
    with IpReply True show ?thesis by (rule that(2))
  next
    case False
    with step_IpReply[OF IpReply, of s] have "step s e = s" by simp
    then show ?thesis by (rule that(5))
  qed
next
  case (Reply i r)
  let ?s = "s\<lparr>now := fst e\<rparr>"
  show ?thesis
  proof (cases "phase s = Running \<and> i < length (workers s)")
    case False
    with step_Reply[OF Reply, of s] have "step s e = s" by auto
    then show ?thesis by (rule that(5))
  next
    case True
    then have ph: "phase s = Running" and il: "i < length (workers s)" by simp_all
    from True step_Reply[OF Reply, of s] have st: "step s e = resume i r ?s" by simp
    show ?thesis
    proof (cases "workers s ! i")
      case Returned
      then have "workers ?s ! i = Returned" by simp
      then have "resume i r ?s = ?s" by (rule resume_returned)
      with st have "step s e = ?s" by simp
      then show ?thesis by (rule that(6))
    next
      case (AwaitAnon p res0 lat)
      then have w: "workers ?s ! i = AwaitAnon p res0 lat" by simp
      from resume_anon[OF w, of r] obtain l where
        "resume i r ?s = continue i (res0\<lparr>cr_anonymity := Some (checkAnonymity (myIp ?s) r)\<rparr>)
                           (?s\<lparr>logs := l\<rparr>)" by blast
      with st have eq: "step s e = continue i (res0\<lparr>cr_anonymity := Some (checkAnonymity (myIp s) r)\<rparr>)
                           (s\<lparr>now := fst e, logs := l\<rparr>)" by simp
      show ?thesis
        by (rule that(4)[OF Reply ph il eq]) (use AwaitAnon in blast)
    next
      case (AwaitProbe p t0)
      then have w: "workers ?s ! i = AwaitProbe p t0" by simp
      show ?thesis
      proof (cases "ok_reply r")
        case False
        from resume_probe_dead[OF w False] obtain l where
          "resume i r ?s = continue i (result0 p) (?s\<lparr>logs := l\<rparr>)" by blast
        with st have eq: "step s e = continue i (result0 p) (s\<lparr>now := fst e, logs := l\<rparr>)"
          by simp
        show ?thesis
          by (rule that(4)[OF Reply ph il eq]) (use AwaitProbe False in auto)
      next
        case ok: True
        show ?thesis
        proof (cases "opt_checkAnonymity (options s) \<and> myIp s \<noteq> []")
          case False
          then have f: "\<not> (opt_checkAnonymity (options ?s) \<and> myIp ?s \<noteq> [])" by simp
          from resume_probe_plain[OF w ok f] obtain l where
            "resume i r ?s = continue i ((working_result p (now ?s - t0))\<lparr>cr_anonymity := Some Unknown\<rparr>)
                               (?s\<lparr>logs := l\<rparr>)" by blast
          with st have eq: "step s e
              = continue i ((working_result p (fst e - t0))\<lparr>cr_anonymity := Some Unknown\<rparr>)
                  (s\<lparr>now := fst e, logs := l\<rparr>)" by simp
          show ?thesis
            by (rule that(4)[OF Reply ph il eq]) (use AwaitProbe ok False in auto)
        next
          case an: True
          then have a1: "opt_checkAnonymity (options ?s)" and a2: "myIp ?s \<noteq> []" by simp_all
          have "resume i r ?s
              = s\<lparr>now := fst e, requests := requests s @ [GetHeaders p],
                  workers := (workers s)[i := AwaitAnon p (working_result p (fst e - t0)) (fst e - t0)]\<rparr>"
            using resume_probe_anon[OF w ok a1 a2] by simp
          with st have eq: "step s e
              = s\<lparr>now := fst e, requests := requests s @ [GetHeaders p],
                  workers := (workers s)[i := AwaitAnon p (working_result p (fst e - t0)) (fst e - t0)]\<rparr>"
            by simp
          from an have b1: "opt_checkAnonymity (options s)" and b2: "myIp s \<noteq> []" by simp_all
          show ?thesis
            by (rule that(3)[OF Reply ph il AwaitProbe ok b1 b2 eq])
        qed
      qed
    qed
  qed
qed

subsection \<open>What no step changes\<close>

lemma step_constant [simp]:
  "options (step s e) = options s"
  "total (step s e) = total s"
  "proxies (step s e) = proxies s"
  by (cases rule: step_cases[of e s]; simp)+

lemma step_stopped: "stopped s \<Longrightarrow> stopped (step s e)"
  by (cases rule: step_cases[of e s]; simp)

lemma step_not_Detecting: "phase s \<noteq> Detecting \<Longrightarrow> phase (step s e) \<noteq> Detecting"
  by (cases rule: step_cases[of e s]; simp add: phase_continue)

lemma foldl_step_constant [simp]:
  "options (foldl step s evs) = options s"
  "total (foldl step s evs) = total s"
  "proxies (foldl step s evs) = proxies s"
  by (induction evs arbitrary: s; simp)+

lemma checkAll_constant [simp]:
  "options (checkAll s0 ps t) = options s0"
  "total (checkAll s0 ps t) = length ps"
  "proxies (checkAll s0 ps t) = ps"
  by (simp_all add: checkAll_cases Let_def)

lemma run_constant [simp]:
  "options (run opts ps t0 evs) = opts"
  "total (run opts ps t0 evs) = length ps"
  "proxies (run opts ps t0 evs) = ps"
  by (simp_all add: run_def) (simp add: new_ProxyChecker_def)

lemma consistent_le: "consistent s \<Longrightarrow> checked s \<le> total s"
proof -
  assume c: "consistent s"
  from c have a: "checked s + inflight s = length (probed s)"
    by (simp add: consistent_def)
  show ?thesis
  proof (cases "phase s = Detecting")
    case True
    with c have "probed s = []" by (simp add: consistent_def)
    with a show ?thesis by simp
  next
    case False
    with c have "probed s @ queue s = proxies s" by (simp add: consistent_def)
    then have "length (probed s) + length (queue s) = length (proxies s)"
      by (metis length_append)
    moreover from c have "total s = length (proxies s)" by (simp add: consistent_def)
    ultimately show ?thesis using a by simp
  qed
qed

lemma consistent_sum: "consistent s \<Longrightarrow> checked s = working s + dead s"
  by (simp add: consistent_def)

subsection \<open>The snapshots\<close>

lemma emitted_start_workers:
  "emitted (start_workers s)
     = emitted s @ [snapshot None s]
       @ (if phase (start_workers s) = Finished then [snapshot None (start_workers s)] else [])"
proof -
  let ?s2 = "(emitProgress None s)\<lparr>results := [], queue := proxies (emitProgress None s),
                                      workers := [], phase := Running\<rparr>"
  have sw: "start_workers s = await_all (spawn_workers (worker_count s) ?s2)"
    by (simp add: start_workers_def Let_def worker_count_def)
  show ?thesis
    unfolding sw by (simp add: await_all_cases)
qed

lemma db_start_workers:
  "db (start_workers s)
     = db s @ (if phase (start_workers s) = Finished \<and> opt_deleteDead (options s) \<and> deadIds s \<noteq> []
               then [DeleteProxies (deadIds s)] else [])"
proof -
  let ?s2 = "(emitProgress None s)\<lparr>results := [], queue := proxies (emitProgress None s),
                                      workers := [], phase := Running\<rparr>"
  have sw: "start_workers s = await_all (spawn_workers (worker_count s) ?s2)"
    by (simp add: start_workers_def Let_def worker_count_def)
  show ?thesis
    unfolding sw by (simp add: await_all_cases)
qed

lemma sums_up_snapshot:
  "sums_up n (snapshot l s) \<longleftrightarrow> checked s = working s + dead s \<and> checked s \<le> total s \<and> total s = n"
  by (simp add: sums_up_def)

lemma sums_up_consistent: "consistent s \<Longrightarrow> sums_up (total s) (snapshot l s)"
  using consistent_le[of s] consistent_sum[of s] by (simp add: sums_up_snapshot)

lemma snapshot_record_result:
  "sums_up n (snapshot l (record_result res s)) \<longleftrightarrow> sums_up n (snapshot l (continue i res s))"
  by (simp add: sums_up_snapshot)

lemma reported_step:
  assumes c: "consistent s" and r: "reported s"
  shows "reported (step s e)"
proof -
  have c': "consistent (step s e)" using c by (rule consistent_step)
  note ok' = sums_up_consistent[OF c'] and ok = sums_up_consistent[OF c]
  from r have old: "\<forall>p \<in> set (emitted s). sums_up (total s) p"
    by (simp add: reported_def)
  show ?thesis
  proof (cases rule: step_cases[of e s])
    case (Stop l)
    with r show ?thesis by (auto simp: reported_def)
  next
    case (Detect rp)
    let ?d = "detectMyIp_end rp (s\<lparr>now := fst e\<rparr>)"
    have em: "emitted (step s e)
        = emitted s @ [snapshot None ?d]
          @ (if phase (step s e) = Finished then [snapshot None (step s e)] else [])"
      using Detect(3) emitted_start_workers[of ?d] by simp
    have "sums_up (total s) (snapshot None ?d)"
      using ok[of None] by (simp add: sums_up_snapshot)
    with old ok'[of None] have "\<forall>p \<in> set (emitted (step s e)). sums_up (total (step s e)) p"
      unfolding em by auto
    moreover have "phase (step s e) = Finished \<Longrightarrow> last (emitted (step s e)) = snapshot None (step s e)"
      unfolding em by simp
    moreover have "emitted (step s e) \<noteq> []" unfolding em by simp
    ultimately show ?thesis by (simp add: reported_def)
  next
    case (Anon i rp p t0)
    with r show ?thesis by (auto simp: reported_def)
  next
    case (Complete i rp res l)
    let ?s0 = "s\<lparr>now := fst e, logs := l\<rparr>"
    have em: "emitted (step s e)
        = emitted s @ [snapshot (Some res) (record_result res ?s0)]
          @ (if phase (step s e) = Finished then [snapshot None (step s e)] else [])"
      using Complete(2,4) emitted_continue[of i res ?s0] by simp
    have "sums_up (total s) (snapshot (Some res) (record_result res ?s0))"
      using ok'[of "Some res"] Complete(4) snapshot_record_result[of "total s" "Some res" res ?s0 i]
      by simp
    with old ok'[of None] have "\<forall>p \<in> set (emitted (step s e)). sums_up (total (step s e)) p"
      unfolding em by auto
    moreover have "phase (step s e) = Finished \<Longrightarrow> last (emitted (step s e)) = snapshot None (step s e)"
      unfolding em by simp
    moreover have "emitted (step s e) \<noteq> []" unfolding em by simp
    ultimately show ?thesis by (simp add: reported_def)
  next
    case Skip
    with r show ?thesis by simp
  next
    case Tick
    with r show ?thesis by (auto simp: reported_def)
  qed
qed

lemma reported_checkAll: "reported (checkAll (new_ProxyChecker opts) ps t0)"
proof (cases "opt_checkAnonymity opts")
  case True
  then show ?thesis
    by (simp add: checkAll_cases Let_def reported_def new_ProxyChecker_def)
next
  case False
  let ?s6 = "addLog (LogCheckAnonymity (opt_checkAnonymity opts))
                (addLog (LogDeleteDead (opt_deleteDead opts))
                 (addLog (LogUrl (opt_testUrl opts))
                  (addLog (LogThreads (opt_threads opts) (opt_timeout opts))
                   (addLog (LogStart (length ps))
                     ((new_ProxyChecker opts)\<lparr>now := t0, proxies := ps, stopped := False, checked := 0,
                         working := 0, dead := 0, total := length ps, logs := [], deadIds := []\<rparr>)))))"
  have eq: "checkAll (new_ProxyChecker opts) ps t0 = start_workers ?s6"
    using False by (simp add: checkAll_cases Let_def new_ProxyChecker_def)
  have em: "emitted ?s6 = []" by (simp add: new_ProxyChecker_def)
  have c: "consistent (start_workers ?s6)"
    using consistent_checkAll[of opts ps t0] eq by simp
  have "sums_up (length ps) (snapshot None ?s6)"
    by (simp add: sums_up_snapshot)
  moreover have "sums_up (length ps) (snapshot None (start_workers ?s6))"
    using sums_up_consistent[OF c, of None] by simp
  ultimately show ?thesis
    unfolding eq reported_def emitted_start_workers em
    by simp
qed

lemma invariants_foldl:
  "consistent s \<Longrightarrow> reported s \<Longrightarrow> reported (foldl step s evs)"
  by (induction evs arbitrary: s) (simp_all add: consistent_step reported_step)

lemma reported_run: "reported (run opts ps t0 evs)"
  by (simp add: run_def invariants_foldl consistent_checkAll reported_checkAll)

subsection \<open>The queue is drained\<close>

lemma step_not_stopped: "\<not> stopped (step s e) \<Longrightarrow> \<not> stopped s"
  using step_stopped by blast

lemma drains_step:
  assumes d: "drains s"
  shows "drains (step s e)"
proof (cases "\<not> stopped (step s e) \<and> phase (step s e) \<noteq> Detecting \<and> 1 \<le> opt_threads (options s)")
  case False
  then show ?thesis unfolding drains_def step_constant by blast
next
  case True
  then have ns': "\<not> stopped (step s e)" and th: "1 \<le> opt_threads (options s)" by simp_all
  from ns' have ns: "\<not> stopped s" by (rule step_not_stopped)
  show ?thesis
  proof (cases rule: step_cases[of e s])
    case (Stop l)
    with ns' show ?thesis by simp
  next
    case (Detect rp)
    let ?d = "detectMyIp_end rp (s\<lparr>now := fst e\<rparr>)"
    have nsd: "\<not> stopped ?d" using ns by simp
    have q: "queue (step s e) = drop (worker_count ?d) (proxies s)"
      using Detect(3) nsd by (simp add: start_workers_effect)
    have i: "inflight (step s e) = worker_count ?d"
      using Detect(3) nsd by (simp add: inflight_start_workers)
    have "proxies s = [] \<or> 0 < worker_count ?d"
      using th by (cases "proxies s") (simp_all add: worker_count_def)
    with q i show ?thesis by (auto simp: drains_def)
  next
    case (Anon i rp p t0)
    have "active (workers s ! i)" using Anon(4) by (simp add: active_def)
    from inflight_update_active[OF Anon(3) this, of "AwaitAnon p (working_result p (fst e - t0)) (fst e - t0)"
           "requests s @ [GetHeaders p]"]
    have "inflight (step s e) = inflight s"
      unfolding Anon(8) by (simp add: active_def inflight_def)
    with d Anon ns th show ?thesis by (simp add: drains_def)
  next
    case (Complete i rp res l)
    let ?s0 = "s\<lparr>now := fst e, logs := l\<rparr>"
    have act: "active (workers ?s0 ! i)" using Complete(5) by (auto simp: active_def)
    have il: "i < length (workers ?s0)" using Complete(3) by simp
    from inflight_continue[OF il act, of res] ns
    have "inflight (step s e) + 1 = inflight s + (if queue s = [] then 0 else 1)"
      unfolding Complete(4) by simp
    moreover have "queue (step s e) = tl (queue s)"
      unfolding Complete(4) using ns by simp
    moreover have "0 < inflight s"
    proof -
      have "workers s ! i \<in> set (workers s)" using Complete(3) by simp
      moreover have "active (workers s ! i)" using act by simp
      ultimately show ?thesis by (auto simp: inflight_def filter_empty_conv)
    qed
    ultimately show ?thesis by (cases "queue s") (auto simp: drains_def)
  next
    case Skip
    with d show ?thesis by simp
  next
    case Tick
    with d show ?thesis by (simp add: drains_def)
  qed
qed

lemma drains_checkAll: "drains (checkAll (new_ProxyChecker opts) ps t0)"
proof (cases "opt_checkAnonymity opts")
  case True
  then show ?thesis
    by (simp add: checkAll_cases Let_def drains_def new_ProxyChecker_def)
next
  case False
  let ?s6 = "addLog (LogCheckAnonymity (opt_checkAnonymity opts))
                (addLog (LogDeleteDead (opt_deleteDead opts))
                 (addLog (LogUrl (opt_testUrl opts))
                  (addLog (LogThreads (opt_threads opts) (opt_timeout opts))
                   (addLog (LogStart (length ps))
                     ((new_ProxyChecker opts)\<lparr>now := t0, proxies := ps, stopped := False, checked := 0,
                         working := 0, dead := 0, total := length ps, logs := [], deadIds := []\<rparr>)))))"
  have eq: "checkAll (new_ProxyChecker opts) ps t0 = start_workers ?s6"
    using False by (simp add: checkAll_cases Let_def new_ProxyChecker_def)
  have q: "queue (start_workers ?s6) = drop (worker_count ?s6) ps"
    by (simp add: start_workers_effect)
  have i: "inflight (start_workers ?s6) = worker_count ?s6"
    by (simp add: inflight_start_workers)
  have "1 \<le> opt_threads opts \<Longrightarrow> ps = [] \<or> 0 < worker_count ?s6"
    by (cases ps) (simp_all add: worker_count_def new_ProxyChecker_def)
  with q i show ?thesis
    unfolding eq by (auto simp: drains_def new_ProxyChecker_def)
qed

lemma drains_foldl: "drains s \<Longrightarrow> drains (foldl step s evs)"
  by (induction evs arbitrary: s) (simp_all add: drains_step)

lemma drains_run: "drains (run opts ps t0 evs)"
  by (simp add: run_def drains_foldl drains_checkAll)

lemma consistentD:
  assumes "consistent s"
  shows "checked s = working s + dead s"
    and "length (results s) = checked s"
    and "total s = length (proxies s)"
    and "phase s \<noteq> Idle"
    and "phase s = Detecting \<Longrightarrow> probed s = [] \<and> workers s = [] \<and> results s = []"
    and "phase s \<noteq> Detecting \<Longrightarrow> probed s @ queue s = proxies s"
    and "checked s + inflight s = length (probed s)"
    and "phase s = Running \<Longrightarrow> 0 < inflight s"
    and "phase s = Finished \<Longrightarrow> inflight s = 0"
  using assms unfolding consistent_def by blast+

lemma finished_drained:
  assumes c: "consistent s" and f: "phase s = Finished" and q: "queue s = []"
  shows "checked s = total s"
proof -
  from f have "phase s \<noteq> Detecting" by simp
  from consistentD(6)[OF c this] q have "probed s = proxies s" by simp
  with consistentD(7)[OF c] consistentD(9)[OF c f] consistentD(3)[OF c]
  show ?thesis by simp
qed

text \<open>
  C1: at every point of every run the counters satisfy \<open>checked = working + dead\<close> and
  \<open>checked \<le> total\<close>, where \<open>total\<close> is the number of candidate endpoints; the same holds
  for the counters of every snapshot emitted. When the run has finished with its queue
  drained, \<open>checked = total\<close>; and a run that finishes without having been stopped, with
  at least one thread asked for, has drained its queue.
\<close>

theorem counters_invariant:
  "checked (run opts ps t0 evs) = working (run opts ps t0 evs) + dead (run opts ps t0 evs)
   \<and> checked (run opts ps t0 evs) \<le> total (run opts ps t0 evs)
   \<and> total (run opts ps t0 evs) = length ps
   \<and> (\<forall>p \<in> set (emitted (run opts ps t0 evs)).
         p_checked p = p_working p + p_dead p \<and> p_checked p \<le> p_total p \<and> p_total p = length ps)
   \<and> (phase (run opts ps t0 evs) = Finished \<and> queue (run opts ps t0 evs) = []
        \<longrightarrow> checked (run opts ps t0 evs) = length ps)
   \<and> (phase (run opts ps t0 evs) = Finished \<and> \<not> stopped (run opts ps t0 evs) \<and> 1 \<le> opt_threads opts
        \<longrightarrow> queue (run opts ps t0 evs) = [] \<and> checked (run opts ps t0 evs) = length ps)"
proof -
  let ?s = "run opts ps t0 evs"
  have c: "consistent ?s" by (rule consistent_run)
  have r: "reported ?s" by (rule reported_run)
  have d: "drains ?s" by (rule drains_run)
  have 1: "checked ?s = working ?s + dead ?s" using c by (rule consistent_sum)
  have 2: "checked ?s \<le> total ?s" using c by (rule consistent_le)
  have 3: "total ?s = length ps" by simp
  have "\<forall>p \<in> set (emitted ?s). sums_up (total ?s) p"
    using r unfolding reported_def by blast
  then have 4: "\<forall>p \<in> set (emitted ?s).
         p_checked p = p_working p + p_dead p \<and> p_checked p \<le> p_total p \<and> p_total p = length ps"
    unfolding sums_up_def 3 by blast
  have 5: "checked ?s = length ps" if "phase ?s = Finished" "queue ?s = []"
    using finished_drained[OF c that] by simp
  have 6: "queue ?s = []" if "phase ?s = Finished" "\<not> stopped ?s" "1 \<le> opt_threads opts"
  proof -
    from consistentD(9)[OF c that(1)] have "inflight ?s = 0" .
    with d that show ?thesis unfolding drains_def by simp
  qed
  from 1 2 3 4 5 6 show ?thesis by blast
qed

theorem counters_invariant_witness:
  "phase (run sample_plain [sample_proxy 1, sample_proxy 2] 0 sample_events) = Finished
   \<and> \<not> stopped (run sample_plain [sample_proxy 1, sample_proxy 2] 0 sample_events)
   \<and> 1 \<le> opt_threads sample_plain
   \<and> queue (run sample_plain [sample_proxy 1, sample_proxy 2] 0 sample_events) = []
   \<and> checked (run sample_plain [sample_proxy 1, sample_proxy 2] 0 sample_events) = 2
   \<and> emitted (run sample_plain [sample_proxy 1, sample_proxy 2] 0 sample_events) \<noteq> []"
proof -
  note h = sample_plain_run[unfolded Let_def]
  from counters_invariant[of sample_plain "[sample_proxy 1, sample_proxy 2]" 0 sample_events] h
  show ?thesis by simp
qed

subsection \<open>After \<open>stop\<close>\<close>







subsection \<open>The database calls\<close>

lemma kept_for_deletion_cong:
  "options s' = options s \<Longrightarrow> kept_for_deletion s' = kept_for_deletion s"
  by (simp add: kept_for_deletion_def fun_eq_iff)

lemma persisted_cong:
  assumes "options s' = options s" "deadIds s' = deadIds s" "db s' = db s"
    "results s' = results s" "phase s' = phase s"
  shows "persisted s' = persisted s"
  using assms kept_for_deletion_cong[OF assms(1)]
  by (simp add: persisted_def updates_def deletions_def)

lemma persisted_continue:
  assumes p: "persisted s" and ph: "phase s = Running"
  shows "persisted (continue i res s)"
proof -
  let ?s' = "continue i res s"
  have k: "kept_for_deletion ?s' = kept_for_deletion s"
    by (rule kept_for_deletion_cong) simp
  from p ph have del: "deletions s = []" by (simp add: persisted_def)
  from p have dI: "deadIds s = map cr_id (filter (kept_for_deletion s) (results s))"
    and up: "map update_values (updates s)
               = map result_values (filter (\<lambda>r. \<not> kept_for_deletion s r) (results s))"
    by (simp_all add: persisted_def)
  have dI': "deadIds ?s' = (if kept_for_deletion s res then deadIds s @ [cr_id res] else deadIds s)"
    by (simp add: kept_for_deletion_def)
  have db': "db ?s' = db s
      @ (if kept_for_deletion s res then []
         else [UpdateProxy (cr_id res) \<lparr>up_status = cr_status res, up_latency = cr_latency res,
                 up_anonymity = cr_anonymity res, up_last_checked = now s div 1000\<rparr>])
      @ (if phase ?s' = Finished \<and> opt_deleteDead (options s) \<and> deadIds ?s' \<noteq> []
         then [DeleteProxies (deadIds ?s')] else [])"
    using ph by (simp add: db_continue kept_for_deletion_def)
  have 1: "deadIds ?s' = map cr_id (filter (kept_for_deletion ?s') (results ?s'))"
    unfolding k dI' using dI by simp
  have 2: "map update_values (updates ?s')
             = map result_values (filter (\<lambda>r. \<not> kept_for_deletion ?s' r) (results ?s'))"
    unfolding k updates_def db' using up
    by (simp add: updates_def update_values_def result_values_def)
  have 3: "deletions ?s' = (if phase ?s' = Finished \<and> opt_deleteDead (options ?s') \<and> deadIds ?s' \<noteq> []
                      then [deadIds ?s'] else [])"
    unfolding deletions_def db' using del by (simp add: deletions_def)
  from 1 2 3 show ?thesis unfolding persisted_def by blast
qed

lemma persisted_start_workers:
  assumes "deadIds s = []" "db s = []"
  shows "persisted (start_workers s)"
  using assms
  by (simp add: persisted_def updates_def deletions_def db_start_workers)

lemma persisted_step:
  assumes c: "consistent s" and p: "persisted s"
  shows "persisted (step s e)"
proof (cases rule: step_cases[of e s])
  case (Stop l)
  then have "persisted (step s e) = persisted s" by (intro persisted_cong) simp_all
  with p show ?thesis by simp
next
  case (Detect r)
  let ?d = "detectMyIp_end r (s\<lparr>now := fst e\<rparr>)"
  from consistentD(5)[OF c Detect(2)] have r0: "results s = []" by simp
  with p have "deadIds s = []" "map update_values (updates s) = []" "deletions s = []"
    using Detect(2) by (simp_all add: persisted_def)
  then have "deadIds ?d = []" "update_calls (db s) = []" "delete_calls (db s) = []"
    by (simp_all add: updates_def deletions_def)
  moreover have "db s = []" if "update_calls (db s) = []" "delete_calls (db s) = []"
  proof (cases "db s")
    case Nil
    then show ?thesis .
  next
    case (Cons a list)
    with that show ?thesis by (cases a) simp_all
  qed
  ultimately have "deadIds ?d = []" "db ?d = []" by simp_all
  then have "persisted (start_workers ?d)" by (rule persisted_start_workers)
  with Detect(3) show ?thesis by simp
next
  case (Anon i r q t0)
  then have "persisted (step s e) = persisted s" by (intro persisted_cong) simp_all
  with p show ?thesis by simp
next
  case (Complete i r res l)
  have "persisted (s\<lparr>now := fst e, logs := l\<rparr>) = persisted s"
    by (intro persisted_cong) simp_all
  with p Complete(2) have "persisted (continue i res (s\<lparr>now := fst e, logs := l\<rparr>))"
    by (intro persisted_continue) simp_all
  with Complete(4) show ?thesis by simp
next
  case Skip
  with p show ?thesis by simp
next
  case Tick
  then have "persisted (step s e) = persisted s" by (intro persisted_cong) simp_all
  with p show ?thesis by simp
qed

lemma persisted_checkAll: "persisted (checkAll (new_ProxyChecker opts) ps t0)"
proof (cases "opt_checkAnonymity opts")
  case True
  then show ?thesis
    by (simp add: checkAll_cases Let_def persisted_def new_ProxyChecker_def updates_def
        deletions_def)
next
  case False
  then show ?thesis
    unfolding checkAll_cases Let_def
    by (simp add: new_ProxyChecker_def) (rule persisted_start_workers; simp)
qed

lemma persisted_foldl: "consistent s \<Longrightarrow> persisted s \<Longrightarrow> persisted (foldl step s evs)"
  by (induction evs arbitrary: s) (simp_all add: consistent_step persisted_step)

lemma persisted_run: "persisted (run opts ps t0 evs)"
  by (simp add: run_def persisted_foldl consistent_checkAll persisted_checkAll)

text \<open>
  C4, as the code has it: with \<^verbatim>\<open>deleteDead\<close> set, at every point of every run, the calls of
  \<^verbatim>\<open>updateProxy\<close> made so far are exactly one per working outcome, in the order of the
  outcomes and with their id, status, latency and anonymity, so no dead endpoint is
  updated; the ids kept are those of the dead outcomes, in their order; and
  \<^verbatim>\<open>deleteProxies\<close> has been called once, with all the ids kept, when the run has finished
  and some endpoint was dead, and has not been called otherwise.
\<close>

theorem batched_deletion:
  "opt_deleteDead opts \<longrightarrow>
     map update_values (updates (run opts ps t0 evs))
       = map result_values (filter (\<lambda>r. cr_status r = Working) (results (run opts ps t0 evs)))
     \<and> deadIds (run opts ps t0 evs)
         = map cr_id (filter (\<lambda>r. cr_status r = Dead) (results (run opts ps t0 evs)))
     \<and> deletions (run opts ps t0 evs)
         = (if phase (run opts ps t0 evs) = Finished \<and> deadIds (run opts ps t0 evs) \<noteq> []
            then [deadIds (run opts ps t0 evs)] else [])"
proof
  assume dd: "opt_deleteDead opts"
  let ?s = "run opts ps t0 evs"
  have p: "persisted ?s" by (rule persisted_run)
  have k: "kept_for_deletion ?s = (\<lambda>r. cr_status r = Dead)"
    using dd by (simp add: kept_for_deletion_def fun_eq_iff)
  have not_Dead: "(x \<noteq> Dead) = (x = Working)" for x
    by (cases x) simp_all
  from p have "map update_values (updates ?s)
       = map result_values (filter (\<lambda>r. \<not> kept_for_deletion ?s r) (results ?s))"
    and "deadIds ?s = map cr_id (filter (kept_for_deletion ?s) (results ?s))"
    and "deletions ?s = (if phase ?s = Finished \<and> opt_deleteDead (options ?s) \<and> deadIds ?s \<noteq> []
                      then [deadIds ?s] else [])"
    unfolding persisted_def by blast+
  then show "map update_values (updates ?s)
       = map result_values (filter (\<lambda>r. cr_status r = Working) (results ?s))
     \<and> deadIds ?s = map cr_id (filter (\<lambda>r. cr_status r = Dead) (results ?s))
     \<and> deletions ?s = (if phase ?s = Finished \<and> deadIds ?s \<noteq> [] then [deadIds ?s] else [])"
    unfolding k using dd by (simp add: not_Dead)
qed

subsection \<open>The grades\<close>

lemma graded_cong:
  assumes "options s' = options s" "myIp s' = myIp s" "results s' = results s"
    "workers s' = workers s" "phase s' = phase s" "requests s' = requests s"
  shows "graded s' = graded s"
  using assms by (simp add: graded_def anon_probed_def)

lemma working_result_fields [simp]:
  "cr_status (working_result p lat) = Working"
  "cr_latency (working_result p lat) = Some lat"
  "cr_anonymity (working_result p lat) = None"
  "cr_id (working_result p lat) = pc_id p"
  by (simp_all add: working_result_def)

lemma result0_fields [simp]:
  "cr_status (result0 p) = Dead"
  "cr_latency (result0 p) = None"
  "cr_anonymity (result0 p) = None"
  "cr_id (result0 p) = pc_id p"
  by (simp_all add: result0_def)

lemma graded_step:
  assumes g: "graded s"
  shows "graded (step s e)"
proof (cases rule: step_cases[of e s])
  case (Stop l)
  then have "graded (step s e) = graded s" by (intro graded_cong) simp_all
  with g show ?thesis by simp
next
  case (Detect r)
  let ?d = "detectMyIp_end r (s\<lparr>now := fst e\<rparr>)"
  from g Detect(2) have "anon_probed s = []" by (simp add: graded_def)
  then have hr: "header_requests (requests ?d) = []" by (simp add: anon_probed_def)
  have w: "AwaitAnon p res lat \<notin> set (workers (start_workers ?d))" for p res lat
    by (auto simp: start_workers_effect)
  have a: "anon_probed (start_workers ?d) = []"
    using hr by (simp add: anon_probed_def start_workers_effect)
  have ph: "phase (start_workers ?d) \<noteq> Detecting"
    by (simp add: phase_start_workers)
  from w a ph show ?thesis
    unfolding Detect(3) graded_def by simp
next
  case (Anon i r q t0)
  let ?w = "AwaitAnon q (working_result q (fst e - t0)) (fst e - t0)"
  have sub: "set ((workers s)[i := ?w]) \<subseteq> insert ?w (set (workers s))"
    by (rule set_update_subset_insert)
  have 1: "\<forall>r \<in> set (results (step s e)).
        (cr_status r = Working \<longrightarrow> cr_anonymity r \<noteq> None \<and> cr_latency r \<noteq> None)
        \<and> (cr_status r = Dead \<longrightarrow> cr_anonymity r = None \<and> cr_latency r = None)"
    using g unfolding Anon(8) graded_def by simp
  have 2: "\<forall>p res lat. AwaitAnon p res lat \<in> set (workers (step s e))
           \<longrightarrow> cr_status res = Working \<and> cr_latency res = Some lat"
  proof (intro allI impI)
    fix p res lat assume "AwaitAnon p res lat \<in> set (workers (step s e))"
    then have "AwaitAnon p res lat \<in> insert ?w (set (workers s))"
      unfolding Anon(8) using sub by auto
    with g show "cr_status res = Working \<and> cr_latency res = Some lat"
      unfolding graded_def by auto
  qed
  have 3: "phase (step s e) \<noteq> Detecting" unfolding Anon(8) using Anon(2) by simp
  have 4: "\<not> (\<not> opt_checkAnonymity (options (step s e)) \<or> myIp (step s e) = [])"
    unfolding Anon(8) using Anon(6,7) by simp
  from 1 2 3 4 show ?thesis unfolding graded_def by blast
next
  case (Complete i r res l)
  let ?s0 = "s\<lparr>now := fst e, logs := l\<rparr>"
  let ?w = "if queue ?s0 = [] \<or> stopped ?s0 then Returned else AwaitProbe (hd (queue ?s0)) (now ?s0)"
  have wi: "workers s ! i \<in> set (workers s)" using Complete(3) by simp
  have sub: "set ((workers s)[i := ?w]) \<subseteq> insert ?w (set (workers s))"
    by (rule set_update_subset_insert)
  have ws: "workers (step s e) = (workers s)[i := ?w]"
    unfolding Complete(4) by simp
  have notanon: "?w \<noteq> AwaitAnon p res' lat" for p res' lat by simp
  have resok: "(cr_status res = Working \<longrightarrow> cr_anonymity res \<noteq> None \<and> cr_latency res \<noteq> None)
        \<and> (cr_status res = Dead \<longrightarrow> cr_anonymity res = None \<and> cr_latency res = None)"
    using Complete(5)
  proof (elim disjE exE conjE)
    fix p t0 assume "workers s ! i = AwaitProbe p t0"
      and "if ok_reply r
           then \<not> (opt_checkAnonymity (options s) \<and> myIp s \<noteq> [])
                \<and> res = (working_result p (fst e - t0))\<lparr>cr_anonymity := Some Unknown\<rparr>
           else res = result0 p"
    then show ?thesis by (cases "ok_reply r") simp_all
  next
    fix p res0 lat assume w: "workers s ! i = AwaitAnon p res0 lat"
      and "res = res0\<lparr>cr_anonymity := Some (checkAnonymity (myIp s) r)\<rparr>"
    moreover from w wi g have "cr_status res0 = Working \<and> cr_latency res0 = Some lat"
      unfolding graded_def by metis
    ultimately show ?thesis by simp
  qed
  have 1: "\<forall>r \<in> set (results (step s e)).
        (cr_status r = Working \<longrightarrow> cr_anonymity r \<noteq> None \<and> cr_latency r \<noteq> None)
        \<and> (cr_status r = Dead \<longrightarrow> cr_anonymity r = None \<and> cr_latency r = None)"
    using g resok unfolding Complete(4) graded_def by simp
  have 2: "\<forall>p res lat. AwaitAnon p res lat \<in> set (workers (step s e))
           \<longrightarrow> cr_status res = Working \<and> cr_latency res = Some lat"
  proof (intro allI impI)
    fix p res' lat assume "AwaitAnon p res' lat \<in> set (workers (step s e))"
    then have "AwaitAnon p res' lat \<in> insert ?w (set (workers s))"
      unfolding ws using sub by blast
    with notanon[of p res' lat] have "AwaitAnon p res' lat \<in> set (workers s)" by auto
    with g show "cr_status res' = Working \<and> cr_latency res' = Some lat"
      unfolding graded_def by blast
  qed
  have 3: "phase (step s e) \<noteq> Detecting"
    unfolding Complete(4) using Complete(2) by (simp add: phase_continue)
  have ap: "anon_probed (step s e) = anon_probed s"
    unfolding Complete(4) by (simp add: anon_probed_def)
  have 4: "anon_probed (step s e) = []
          \<and> (\<forall>p res lat. AwaitAnon p res lat \<notin> set (workers (step s e)))
          \<and> (\<forall>r \<in> set (results (step s e)). cr_status r = Working \<longrightarrow> cr_anonymity r = Some Unknown)"
    if h: "\<not> opt_checkAnonymity (options (step s e)) \<or> myIp (step s e) = []"
  proof -
    from h have h0: "\<not> opt_checkAnonymity (options s) \<or> myIp s = []"
      unfolding Complete(4) by simp
    with g have old: "anon_probed s = []" "\<And>p res lat. AwaitAnon p res lat \<notin> set (workers s)"
      "\<forall>r \<in> set (results s). cr_status r = Working \<longrightarrow> cr_anonymity r = Some Unknown"
      unfolding graded_def by blast+
    have a: "anon_probed (step s e) = []" using ap old(1) by simp
    have b: "AwaitAnon p res' lat \<notin> set (workers (step s e))" for p res' lat
    proof
      assume "AwaitAnon p res' lat \<in> set (workers (step s e))"
      then have "AwaitAnon p res' lat \<in> insert ?w (set (workers s))"
        unfolding ws using sub by blast
      with notanon[of p res' lat] old(2)[of p res' lat] show False by auto
    qed
    have "cr_status res = Working \<longrightarrow> cr_anonymity res = Some Unknown"
      using Complete(5)
    proof (elim disjE exE conjE)
      fix p t0 assume "workers s ! i = AwaitProbe p t0"
        and "if ok_reply r
             then \<not> (opt_checkAnonymity (options s) \<and> myIp s \<noteq> [])
                  \<and> res = (working_result p (fst e - t0))\<lparr>cr_anonymity := Some Unknown\<rparr>
             else res = result0 p"
      then show ?thesis by (cases "ok_reply r") simp_all
    next
      fix p res0 lat assume w: "workers s ! i = AwaitAnon p res0 lat"
      with wi old(2)[of p res0 lat] show ?thesis by simp
    qed
    with old(3) have c: "\<forall>r \<in> set (results (step s e)). cr_status r = Working
                           \<longrightarrow> cr_anonymity r = Some Unknown"
      unfolding Complete(4) by simp
    from a b c show ?thesis by blast
  qed
  from 1 2 3 4 show ?thesis unfolding graded_def by blast
next
  case Skip
  with g show ?thesis by simp
next
  case Tick
  then have "graded (step s e) = graded s" by (intro graded_cong) simp_all
  with g show ?thesis by simp
qed

lemma graded_checkAll: "graded (checkAll (new_ProxyChecker opts) ps t0)"
proof (cases "opt_checkAnonymity opts")
  case True
  then show ?thesis
    by (simp add: checkAll_cases Let_def graded_def new_ProxyChecker_def anon_probed_def)
next
  case False
  let ?s6 = "addLog (LogCheckAnonymity (opt_checkAnonymity opts))
                (addLog (LogDeleteDead (opt_deleteDead opts))
                 (addLog (LogUrl (opt_testUrl opts))
                  (addLog (LogThreads (opt_threads opts) (opt_timeout opts))
                   (addLog (LogStart (length ps))
                     ((new_ProxyChecker opts)\<lparr>now := t0, proxies := ps, stopped := False, checked := 0,
                         working := 0, dead := 0, total := length ps, logs := [], deadIds := []\<rparr>)))))"
  have eq: "checkAll (new_ProxyChecker opts) ps t0 = start_workers ?s6"
    using False by (simp add: checkAll_cases Let_def new_ProxyChecker_def)
  have w: "AwaitAnon p res lat \<notin> set (workers (start_workers ?s6))" for p res lat
    by (auto simp: start_workers_effect)
  have a: "anon_probed (start_workers ?s6) = []"
    by (simp add: anon_probed_def start_workers_effect new_ProxyChecker_def)
  have ph: "phase (start_workers ?s6) \<noteq> Detecting"
    by (simp add: phase_start_workers)
  from w a ph show ?thesis
    unfolding eq graded_def by simp
qed

lemma graded_foldl: "graded s \<Longrightarrow> graded (foldl step s evs)"
  by (induction evs arbitrary: s) (simp_all add: graded_step)

lemma graded_run: "graded (run opts ps t0 evs)"
  by (simp add: run_def graded_foldl graded_checkAll)

subsection \<open>The caller's address during a run\<close>

lemma myIp_detectMyIp_end: "myIp s = [] \<Longrightarrow> myIp (detectMyIp_end r s) = reply_origin r"
  by (cases r) (simp_all add: detectMyIp_end_def reply_origin_def Let_def split: option.splits)

lemma myIp_step_Stop: "snd e = Stop \<Longrightarrow> myIp (step s e) = myIp s \<and> phase (step s e) = phase s"
  by (simp add: step_def)

lemma myIp_step_running: "phase s \<noteq> Detecting \<Longrightarrow> myIp (step s e) = myIp s"
  by (cases rule: step_cases[of e s]) simp_all

lemma myIp_foldl_running: "phase s \<noteq> Detecting \<Longrightarrow> myIp (foldl step s evs) = myIp s"
  by (induction evs arbitrary: s) (simp_all add: myIp_step_running step_not_Detecting)

lemma myIp_foldl_detecting:
  "phase s = Detecting \<Longrightarrow> myIp s = [] \<Longrightarrow>
   myIp (foldl step s evs) = (case first_ip_reply evs of None \<Rightarrow> [] | Some r \<Rightarrow> reply_origin r)"
proof (induction evs arbitrary: s)
  case Nil
  then show ?case by simp
next
  case (Cons e evs)
  show ?case
  proof (cases "snd e")
    case Stop
    with Cons.prems myIp_step_Stop[OF Stop, of s]
    have "phase (step s e) = Detecting" "myIp (step s e) = []" by simp_all
    from Cons.IH[OF this] Stop show ?thesis by simp
  next
    case (Reply i r)
    with Cons.prems have "step s e = s" by (simp add: step_Reply)
    with Cons.IH[OF Cons.prems] Reply show ?thesis by simp
  next
    case (IpReply r)
    with Cons.prems have st: "step s e = start_workers (detectMyIp_end r (s\<lparr>now := fst e\<rparr>))"
      by (simp add: step_IpReply)
    then have ph: "phase (step s e) \<noteq> Detecting" by (simp add: phase_start_workers)
    have "myIp (step s e) = reply_origin r"
      unfolding st using Cons.prems(2) by (simp add: myIp_detectMyIp_end)
    with myIp_foldl_running[OF ph, of evs] IpReply show ?thesis by simp
  qed
qed

lemma myIp_run:
  "myIp (run opts ps t0 evs)
   = (if opt_checkAnonymity opts
      then (case first_ip_reply evs of None \<Rightarrow> [] | Some r \<Rightarrow> reply_origin r) else [])"
proof (cases "opt_checkAnonymity opts")
  case True
  let ?s = "checkAll (new_ProxyChecker opts) ps t0"
  from True have "phase ?s = Detecting" "myIp ?s = []"
    by (simp_all add: checkAll_cases Let_def new_ProxyChecker_def)
  from myIp_foldl_detecting[OF this, of evs] True show ?thesis by (simp add: run_def)
next
  case False
  let ?s = "checkAll (new_ProxyChecker opts) ps t0"
  from False have "phase ?s \<noteq> Detecting" "myIp ?s = []"
    by (simp_all add: checkAll_cases Let_def new_ProxyChecker_def phase_start_workers)
  with myIp_foldl_running[of ?s evs] False show ?thesis by (simp add: run_def)
qed

text \<open>
  C9: when the anonymity check is off, or the reply to the request for the caller's own
  address was an exception, an error status or a body without an address, then at every
  point of the run every working outcome has the grade \<open>Unknown\<close> and no anonymity
  request has been sent.
\<close>

theorem anonymity_skipped:
  "\<not> opt_checkAnonymity opts \<or> (\<forall>r. first_ip_reply evs = Some r \<longrightarrow> reply_origin r = []) \<longrightarrow>
     (\<forall>r \<in> set (results (run opts ps t0 evs)). cr_status r = Working \<longrightarrow> cr_anonymity r = Some Unknown)
     \<and> anon_probed (run opts ps t0 evs) = []"
proof
  assume h: "\<not> opt_checkAnonymity opts \<or> (\<forall>r. first_ip_reply evs = Some r \<longrightarrow> reply_origin r = [])"
  let ?s = "run opts ps t0 evs"
  have "\<not> opt_checkAnonymity (options ?s) \<or> myIp ?s = []"
  proof (cases "opt_checkAnonymity opts")
    case False
    then show ?thesis by simp
  next
    case True
    with h have "\<forall>r. first_ip_reply evs = Some r \<longrightarrow> reply_origin r = []" by simp
    then have "myIp ?s = []"
      unfolding myIp_run by (cases "first_ip_reply evs") (simp_all add: True)
    then show ?thesis by simp
  qed
  with graded_run[of opts ps t0 evs]
  show "(\<forall>r \<in> set (results ?s). cr_status r = Working \<longrightarrow> cr_anonymity r = Some Unknown)
     \<and> anon_probed ?s = []"
    unfolding graded_def by blast
qed

subsection \<open>The outcome of a probe\<close>





subsection \<open>The theorems on the sample runs\<close>


theorem batched_deletion_witness:
  "opt_deleteDead sample_plain
   \<and> phase (run sample_plain [sample_proxy 1, sample_proxy 2] 0 sample_events) = Finished
   \<and> deadIds (run sample_plain [sample_proxy 1, sample_proxy 2] 0 sample_events) = [2]
   \<and> deletions (run sample_plain [sample_proxy 1, sample_proxy 2] 0 sample_events) = [[2]]"
proof -
  note e = sample_plain_run[unfolded Let_def]
  from batched_deletion[of sample_plain "[sample_proxy 1, sample_proxy 2]" 0 sample_events] e
  show ?thesis by simp
qed

text \<open>
  With \<^verbatim>\<open>deleteDead\<close> set, the run over one live endpoint finishes and has called
  \<^verbatim>\<open>deleteProxies\<close> not once but never.
\<close>

theorem single_deletion_counterexample:
  "opt_deleteDead sample_plain
   \<and> phase (run sample_plain [sample_proxy 1] 0 sample_live_events) = Finished
   \<and> length (deletions (run sample_plain [sample_proxy 1] 0 sample_live_events)) \<noteq> 1"
  using sample_live_run[unfolded Let_def] sample_plain_run[unfolded Let_def]
  by (simp add: deletions_def)

theorem anonymity_skipped_witness:
  "opt_checkAnonymity sample_options
   \<and> first_ip_reply sample_unresolved_events = Some sample_failure
   \<and> reply_origin sample_failure = []
   \<and> map cr_status (results (run sample_options [sample_proxy 1] 0 sample_unresolved_events)) = [Working]
   \<and> map cr_anonymity (results (run sample_options [sample_proxy 1] 0 sample_unresolved_events))
      = [Some Unknown]
   \<and> anon_probed (run sample_options [sample_proxy 1] 0 sample_unresolved_events) = []"
proof -
  let ?s = "run sample_options [sample_proxy 1] 0 sample_unresolved_events"
  have f: "first_ip_reply sample_unresolved_events = Some sample_failure"
    by (simp add: sample_unresolved_events_def)
  have o: "reply_origin sample_failure = []"
    by (simp add: sample_failure_def reply_origin_def)
  have c: "opt_checkAnonymity sample_options"
    by (simp add: sample_options_def)
  from f o have h: "\<forall>r. first_ip_reply sample_unresolved_events = Some r \<longrightarrow> reply_origin r = []"
    by simp
  from sample_unresolved_run[unfolded Let_def]
  have st: "map cr_status (results ?s) = [Working]" by simp
  then obtain r where r: "results ?s = [r]" "cr_status r = Working" by auto
  from anonymity_skipped[of sample_options sample_unresolved_events "[sample_proxy 1]" 0] h
  have a: "\<forall>r \<in> set (results ?s). cr_status r = Working \<longrightarrow> cr_anonymity r = Some Unknown"
    and b: "anon_probed ?s = []" by blast+
  from a r have "map cr_anonymity (results ?s) = [Some Unknown]" by simp
  with f o c st b show ?thesis by blast
qed


subsection \<open>The anonymity classifier\<close>


















section \<open>Proofs about the aggregator\<close>

subsection \<open>The key of a candidate\<close>

lemma of_char_digit_char: "d < 10 \<Longrightarrow> (of_char (digit_char d) :: nat) = 48 + d"
  by (simp add: digit_char_def)

lemma decimal_value_snoc:
  "decimal_value (ds @ [c]) = 10 * decimal_value ds + ((of_char c :: nat) - 48)"
  by (simp add: decimal_value_def)

lemma decimal_value_show_nat: "decimal_value (show_nat n) = n"
proof (induction n rule: show_nat.induct)
  case (1 n)
  show ?case
  proof (cases "n < 10")
    case True
    then show ?thesis
      by (subst show_nat.simps) (simp add: decimal_value_def of_char_digit_char)
  next
    case False
    with 1 have "decimal_value (show_nat (n div 10)) = n div 10" by simp
    with False show ?thesis
      by (subst show_nat.simps) (simp add: decimal_value_snoc of_char_digit_char)
  qed
qed

lemma show_nat_inj: "show_nat n = show_nat m \<Longrightarrow> n = m"
  by (metis decimal_value_show_nat)

lemma show_nat_digits: "c \<in> set (show_nat n) \<Longrightarrow> 48 \<le> (of_char c :: nat) \<and> (of_char c :: nat) \<le> 57"
proof (induction n rule: show_nat.induct)
  case (1 n)
  show ?case
  proof (cases "n < 10")
    case True
    with "1.prems" have "c = digit_char n" by (subst (asm) show_nat.simps) simp
    with True show ?thesis by (simp add: of_char_digit_char)
  next
    case False
    with "1.prems" have "c \<in> set (show_nat (n div 10)) \<or> c = digit_char (n mod 10)"
      by (subst (asm) show_nat.simps) auto
    then show ?thesis
    proof
      assume "c \<in> set (show_nat (n div 10))"
      with 1 False show ?thesis by simp
    next
      assume "c = digit_char (n mod 10)"
      then show ?thesis by (simp add: of_char_digit_char)
    qed
  qed
qed

lemma show_nat_not_Nil: "show_nat n \<noteq> []"
  by (subst show_nat.simps) simp

lemma show_int_chars:
  "c \<in> set (show_int i) \<Longrightarrow> c = CHR ''-'' \<or> (48 \<le> (of_char c :: nat) \<and> (of_char c :: nat) \<le> 57)"
  by (auto simp: show_int_def dest: show_nat_digits split: if_splits)

lemma show_nat_no_minus: "show_nat n \<noteq> CHR ''-'' # cs"
proof
  assume "show_nat n = CHR ''-'' # cs"
  then have "CHR ''-'' \<in> set (show_nat n)" by simp
  from show_nat_digits[OF this] show False by simp
qed

lemma show_int_inj: "show_int i = show_int j \<Longrightarrow> i = j"
proof -
  assume e: "show_int i = show_int j"
  show ?thesis
  proof (cases "i < 0")
    case True
    show ?thesis
    proof (cases "j < 0")
      case jn: True
      with True e have "show_nat (nat (- i)) = show_nat (nat (- j))" by (simp add: show_int_def)
      from show_nat_inj[OF this] True jn show ?thesis by simp
    next
      case False
      with True e show_nat_no_minus[of "nat j" "show_nat (nat (- i))"] show ?thesis
        by (simp add: show_int_def)
    qed
  next
    case False
    show ?thesis
    proof (cases "j < 0")
      case True
      with False e show_nat_no_minus[of "nat i" "show_nat (nat (- j))"] show ?thesis
        by (simp add: show_int_def)
    next
      case jp: False
      with False e have "show_nat (nat i) = show_nat (nat j)" by (simp add: show_int_def)
      from show_nat_inj[OF this] False jp show ?thesis by simp
    qed
  qed
qed

lemma show_int_not_NaN: "show_int i \<noteq> ''NaN''"
proof
  assume "show_int i = ''NaN''"
  then have "CHR ''N'' \<in> set (show_int i)" by simp
  from show_int_chars[OF this] show False by simp
qed

lemma show_number_inj: "show_number x = show_number y \<Longrightarrow> x = y"
proof (cases x)
  case (Num i)
  assume e: "show_number x = show_number y"
  show ?thesis
  proof (cases y)
    case (Num j)
    with \<open>x = Num i\<close> e show ?thesis by (simp add: show_number_def show_int_inj)
  next
    case NaN
    with \<open>x = Num i\<close> e show_int_not_NaN[of i] show ?thesis by (simp add: show_number_def)
  qed
next
  case NaN
  assume e: "show_number x = show_number y"
  show ?thesis
  proof (cases y)
    case (Num j)
    with \<open>x = NaN\<close> e show_int_not_NaN[of j] show ?thesis by (simp add: show_number_def)
  next
    case NaN
    with \<open>x = NaN\<close> show ?thesis by simp
  qed
qed

lemma show_number_no_colon: "CHR '':'' \<notin> set (show_number x)"
proof (cases x)
  case (Num i)
  show ?thesis
  proof
    assume "CHR '':'' \<in> set (show_number x)"
    with Num have "CHR '':'' \<in> set (show_int i)" by (simp add: show_number_def)
    from show_int_chars[OF this] show False by simp
  qed
next
  case NaN
  then show ?thesis by (simp add: show_number_def)
qed

lemma split_at_last:
  assumes "c \<notin> set a" "c \<notin> set b" "xs @ c # a = ys @ c # b"
  shows "xs = ys \<and> a = b"
proof -
  have "takeWhile (\<lambda>x. x \<noteq> c) (rev (xs @ c # a)) = rev a"
    using assms(1) by (auto simp: takeWhile_tail)
  moreover have "takeWhile (\<lambda>x. x \<noteq> c) (rev (ys @ c # b)) = rev b"
    using assms(2) by (auto simp: takeWhile_tail)
  ultimately have "rev a = rev b" using assms(3) by simp
  then have "a = b" by simp
  with assms(3) show ?thesis by simp
qed

lemma proxy_key_inj:
  "proxy_key p = proxy_key q \<longleftrightarrow> pp_ip p = pp_ip q \<and> pp_port p = pp_port q"
proof
  assume "proxy_key p = proxy_key q"
  then have "pp_ip p @ CHR '':'' # show_number (pp_port p)
             = pp_ip q @ CHR '':'' # show_number (pp_port q)"
    by (simp add: proxy_key_def)
  from split_at_last[OF show_number_no_colon show_number_no_colon this]
  show "pp_ip p = pp_ip q \<and> pp_port p = pp_port q"
    by (auto dest: show_number_inj)
next
  assume "pp_ip p = pp_ip q \<and> pp_port p = pp_port q"
  then show "proxy_key p = proxy_key q" by (simp add: proxy_key_def)
qed

subsection \<open>The removal of duplicates\<close>

lemma unique_loop_append: "unique_loop (ps @ qs) acc = unique_loop qs (unique_loop ps acc)"
  by (induction ps arbitrary: acc) simp_all

lemma unique_loop_keys:
  "set (map fst (unique_loop ps acc)) = set (map fst acc) \<union> set (map proxy_key ps)"
  by (induction ps arbitrary: acc) auto

lemma unique_loop_known:
  "set (map proxy_key qs) \<subseteq> set (map fst acc) \<Longrightarrow> unique_loop qs acc = acc"
  by (induction qs arbitrary: acc) auto

lemma unique_loop_wf:
  "distinct (map fst acc) \<Longrightarrow> \<forall>kp \<in> set acc. fst kp = proxy_key (snd kp) \<Longrightarrow>
   distinct (map fst (unique_loop ps acc))
   \<and> (\<forall>kp \<in> set (unique_loop ps acc). fst kp = proxy_key (snd kp))"
proof (induction ps arbitrary: acc)
  case Nil
  then show ?case by simp
next
  case (Cons p ps)
  show ?case
  proof (cases "proxy_key p \<in> set (map fst acc)")
    case True
    with Cons.IH[OF Cons.prems] show ?thesis by simp
  next
    case False
    have "distinct (map fst (acc @ [(proxy_key p, p)]))"
      "\<forall>kp \<in> set (acc @ [(proxy_key p, p)]). fst kp = proxy_key (snd kp)"
      using Cons.prems False by auto
    from Cons.IH[OF this] False show ?thesis by simp
  qed
qed

lemma unique_loop_first:
  "(k, r) \<in> set (unique_loop ps acc) \<Longrightarrow>
   (k, r) \<in> set acc
   \<or> (k \<notin> set (map fst acc) \<and> k = proxy_key r \<and> find (\<lambda>p. proxy_key p = k) ps = Some r)"
proof (induction ps arbitrary: acc)
  case Nil
  then show ?case by simp
next
  case (Cons p ps)
  show ?case
  proof (cases "proxy_key p \<in> set (map fst acc)")
    case True
    with Cons.prems have "(k, r) \<in> set (unique_loop ps acc)" by simp
    from Cons.IH[OF this] True show ?thesis by auto
  next
    case False
    with Cons.prems have "(k, r) \<in> set (unique_loop ps (acc @ [(proxy_key p, p)]))" by simp
    from Cons.IH[OF this] False show ?thesis by auto
  qed
qed

lemma dedup_distinct: "distinct (map proxy_key (dedup ps))"
proof -
  from unique_loop_wf[of "[]" ps]
  have d: "distinct (map fst (unique_loop ps []))"
    and w: "\<forall>kp \<in> set (unique_loop ps []). fst kp = proxy_key (snd kp)" by simp_all
  from w have "map proxy_key (dedup ps) = map fst (unique_loop ps [])"
    by (simp add: dedup_def)
  with d show ?thesis by simp
qed

lemma dedup_keys: "set (map proxy_key (dedup ps)) = set (map proxy_key ps)"
proof -
  from unique_loop_wf[of "[]" ps]
  have w: "\<forall>kp \<in> set (unique_loop ps []). fst kp = proxy_key (snd kp)" by simp
  then have "map proxy_key (dedup ps) = map fst (unique_loop ps [])"
    by (simp add: dedup_def)
  with unique_loop_keys[of ps "[]"] show ?thesis by simp
qed

lemma dedup_first:
  "r \<in> set (dedup ps) \<Longrightarrow> find (\<lambda>p. proxy_key p = proxy_key r) ps = Some r"
proof -
  assume "r \<in> set (dedup ps)"
  then obtain k where "(k, r) \<in> set (unique_loop ps [])"
    by (auto simp: dedup_def)
  from unique_loop_first[OF this] show ?thesis by auto
qed

lemma dedup_absorb:
  "set (map proxy_key qs) \<subseteq> set (map proxy_key ps) \<Longrightarrow> dedup (ps @ qs) = dedup ps"
proof -
  assume "set (map proxy_key qs) \<subseteq> set (map proxy_key ps)"
  then have "set (map proxy_key qs) \<subseteq> set (map fst (unique_loop ps []))"
    using unique_loop_keys[of ps "[]"] by simp
  from unique_loop_known[OF this] show ?thesis
    by (simp add: dedup_def unique_loop_append)
qed

subsection \<open>The loop over the sources\<close>

lemma fetch_effect [simp]:
  "fst (fetch url web a) = pushed (web (fetched a) url)"
  "fetched (snd (fetch url web a)) = fetched a + 1"
  "progress_events (snd (fetch url web a)) = progress_events a"
  by (simp_all add: fetch_def pushed_def split: listing.splits)

lemma fetch_types_effect:
  "fetched (snd (fetch_types mk ts web found a)) = fetched a + length ts"
  "progress_events (snd (fetch_types mk ts web found a)) = progress_events a"
  by (induction ts arbitrary: found a; simp add: case_prod_beta)+

lemma fetch_types_fetched:
  "fetched a = fetched a' \<Longrightarrow>
   fst (fetch_types mk ts web found a) = fst (fetch_types mk ts web found a')"
proof (induction ts arbitrary: found a a')
  case Nil
  then show ?case by simp
next
  case (Cons t ts)
  have "fetched (snd (fetch (mk t) web a)) = fetched (snd (fetch (mk t) web a'))"
    using Cons.prems by simp
  from Cons.IH[OF this] Cons.prems show ?case
    by (simp add: case_prod_beta)
qed

lemma fetch_types_stable:
  "stable web \<Longrightarrow> fst (fetch_types mk ts web found a) = fst (fetch_types mk ts web found a')"
proof (induction ts arbitrary: found a a')
  case Nil
  then show ?case by simp
next
  case (Cons t ts)
  from Cons.prems have "web (fetched a) (mk t) = web (fetched a') (mk t)"
    unfolding stable_def by blast
  with Cons.IH[OF Cons.prems] show ?case
    by (simp add: case_prod_beta)
qed

lemma parse_source_effect:
  "fetched (snd (parse_source s f web a)) = fetched a + request_count s f"
  "progress_events (snd (parse_source s f web a)) = progress_events a"
  by (simp_all add: parse_source_def request_count_def parseFreeProxyList_def
      parseProxyListDownload_def parseProxyScrape_def parseGeoNode_def Let_def
      fetch_types_effect split: option.splits)

lemma parse_source_fetched:
  "fetched a = fetched a' \<Longrightarrow> fst (parse_source s f web a) = fst (parse_source s f web a')"
  using fetch_types_fetched[of a a']
  by (simp add: parse_source_def parseFreeProxyList_def
      parseProxyListDownload_def parseProxyScrape_def parseGeoNode_def Let_def)

lemma parse_source_stable:
  "stable web \<Longrightarrow> fst (parse_source s f web a) = fst (parse_source s f web a')"
proof -
  assume st: "stable web"
  then have "web (fetched a) url = web (fetched a') url" for url
    unfolding stable_def by blast
  with fetch_types_stable[OF st, of _ _ _ a a'] show ?thesis
    by (simp add: parse_source_def parseFreeProxyList_def
      parseProxyListDownload_def parseProxyScrape_def parseGeoNode_def Let_def)
qed

lemma source_candidates_eq:
  "type_filter f (fst (parse_source s f web a)) = source_candidates s f web (fetched a)"
  unfolding source_candidates_def
  by (rule arg_cong[where f="type_filter f"], rule parse_source_fetched)
     (simp add: aggregation_at_def)

lemma source_candidates_stable:
  "stable web \<Longrightarrow> source_candidates s f web k = source_candidates s f web k'"
  unfolding source_candidates_def
  by (rule arg_cong[where f="type_filter f"], rule parse_source_stable)

lemma on_progress_effect [simp]:
  "fetched (on_progress n c st a) = fetched a"
  "progress_events (on_progress n c st a)
     = progress_events a @ [\<lparr>pg_source = n, pg_count = c, pg_status = st\<rparr>]"
  by (simp_all add: on_progress_def)

lemma sources_loop_effect:
  "fst (sources_loop srcs f web acc a) = acc @ gathered srcs f web (fetched a)
   \<and> progress_events (snd (sources_loop srcs f web acc a))
       = progress_events a @ expected_events srcs f web (fetched a)"
proof (induction srcs arbitrary: acc a)
  case Nil
  show ?case by simp
next
  case (Cons s srcs)
  let ?a0 = "on_progress (src_name s) 0 Parsing a"
  let ?ps = "type_filter f (fst (parse_source s f web ?a0))"
  let ?a1 = "snd (parse_source s f web ?a0)"
  let ?a2 = "on_progress (src_name s) (length ?ps) Done ?a1"
  have ts: "try_source s f web ?a0 = Inr (?ps, ?a1)"
    by (simp add: try_source_def case_prod_beta)
  have ps: "?ps = source_candidates s f web (fetched a)"
    using source_candidates_eq[of f s web ?a0] by simp
  have f2: "fetched ?a2 = fetched a + request_count s f"
    by (simp add: parse_source_effect)
  have e2: "progress_events ?a2
      = progress_events a @ [\<lparr>pg_source = src_name s, pg_count = 0, pg_status = Parsing\<rparr>,
                             \<lparr>pg_source = src_name s, pg_count = length ?ps, pg_status = Done\<rparr>]"
    by (simp add: parse_source_effect)
  have "sources_loop (s # srcs) f web acc a = sources_loop srcs f web (acc @ ?ps) ?a2"
    by (simp add: ts)
  with Cons.IH[of "acc @ ?ps" ?a2] f2 e2 ps show ?case
    by (simp add: parse_source_effect)
qed



lemma parseFromSources_effect:
  "fst (parseFromSources srcs f web) = dedup (gathered srcs f web 0)"
  "progress_events (snd (parseFromSources srcs f web)) = expected_events srcs f web 0"
  using sources_loop_effect[of srcs f web "[]" new_aggregation]
  by (simp_all add: parseFromSources_def case_prod_beta new_aggregation_def)

subsection \<open>The aggregator on the sample networks\<close>

lemma sample_dedup:
  "dedup [sample_candidate ''1.1.1.1'' 80, sample_candidate ''2.2.2.2'' 81,
          sample_candidate ''1.1.1.1'' 80]
   = [sample_candidate ''1.1.1.1'' 80, sample_candidate ''2.2.2.2'' 81]"
  by code_simp



lemma stable_sample_web: "stable sample_web"
  by (simp add: stable_def sample_web_def)

text \<open>
  C5: the candidates returned have pairwise different keys, every key of a gathered
  candidate is the key of a returned one, and a returned candidate is the first gathered
  candidate with its key. Two candidates have the same key exactly when they have the
  same address and the same port. Appending the gathered candidates to themselves
  changes nothing in the result, and so, on a network that answers a URL the same way
  each time, aggregating a source twice returns what aggregating it once returns.
\<close>

theorem dedup_idempotent:
  "distinct (map proxy_key (dedup ps))
   \<and> set (map proxy_key (dedup ps)) = set (map proxy_key ps)
   \<and> (\<forall>r \<in> set (dedup ps). find (\<lambda>p. proxy_key p = proxy_key r) ps = Some r)
   \<and> (proxy_key p = proxy_key q \<longleftrightarrow> pp_ip p = pp_ip q \<and> pp_port p = pp_port q)
   \<and> dedup (ps @ ps) = dedup ps
   \<and> fst (parseFromSources sources filters web) = dedup (gathered sources filters web 0)
   \<and> (stable web \<longrightarrow> fst (parseFromSources [source, source] filters web)
                       = fst (parseFromSources [source] filters web))"
proof -
  have 1: "\<forall>r \<in> set (dedup ps). find (\<lambda>p. proxy_key p = proxy_key r) ps = Some r"
    using dedup_first by blast
  have 2: "dedup (ps @ ps) = dedup ps"
    by (rule dedup_absorb) simp
  have 3: "fst (parseFromSources [source, source] filters web)
           = fst (parseFromSources [source] filters web)" if st: "stable web"
  proof -
    let ?xs = "source_candidates source filters web 0"
    have "source_candidates source filters web (request_count source filters) = ?xs"
      using st by (rule source_candidates_stable)
    then have "gathered [source, source] filters web 0 = ?xs @ ?xs"
      and "gathered [source] filters web 0 = ?xs" by simp_all
    then show ?thesis
      unfolding parseFromSources_effect using dedup_absorb[of ?xs ?xs] by simp
  qed
  from dedup_distinct[of ps] dedup_keys[of ps] 1 proxy_key_inj[of p q] 2
    parseFromSources_effect(1)[of sources filters web] 3
  show ?thesis by blast
qed

theorem dedup_idempotent_witness:
  "stable sample_web
   \<and> dedup [sample_candidate ''1.1.1.1'' 80, sample_candidate ''2.2.2.2'' 81,
             sample_candidate ''1.1.1.1'' 80]
      = [sample_candidate ''1.1.1.1'' 80, sample_candidate ''2.2.2.2'' 81]
   \<and> find (\<lambda>p. proxy_key p = proxy_key (sample_candidate ''2.2.2.2'' 81))
        [sample_candidate ''1.1.1.1'' 80, sample_candidate ''2.2.2.2'' 81,
         sample_candidate ''1.1.1.1'' 80] = Some (sample_candidate ''2.2.2.2'' 81)
   \<and> fst (parseFromSources [sample_source, sample_source] None sample_web)
      = fst (parseFromSources [sample_source] None sample_web)"
proof -
  note t = dedup_idempotent[where ps = "[sample_candidate ''1.1.1.1'' 80,
             sample_candidate ''2.2.2.2'' 81, sample_candidate ''1.1.1.1'' 80]"
             and web = sample_web and source = sample_source and filters = None]
  have m: "sample_candidate ''2.2.2.2'' 81
           \<in> set (dedup [sample_candidate ''1.1.1.1'' 80, sample_candidate ''2.2.2.2'' 81,
                          sample_candidate ''1.1.1.1'' 80])"
    unfolding sample_dedup by simp
  from t stable_sample_web sample_dedup m show ?thesis by blast
qed




subsection \<open>The arithmetic of the percent field\<close>

lemma pow2_powi: "pow2 e = 2 powi e"
  by (simp add: pow2_def power_int_def field_simps)

lemma pow2_pos: "0 < pow2 e"
  by (simp add: pow2_powi)

lemma pow2_add: "pow2 (a + b) = pow2 a * pow2 b"
  by (simp add: pow2_powi power_int_add)

lemma pow2_diff: "pow2 (a - b) = pow2 a / pow2 b"
  by (simp add: pow2_powi power_int_diff)

lemma pow2_numeral: "pow2 (- 52) = 1 / 4503599627370496" "pow2 1 = 2" "pow2 (-1) = 1 / 2"
  by (simp_all add: pow2_def)

lemma bitlen_pow2:
  assumes "0 < (a::int)"
  shows "pow2 (bitlen a - 1) \<le> of_int a" "of_int a < pow2 (bitlen a)"
proof -
  from bitlen_bounds[OF assms] have b: "2 ^ nat (bitlen a - 1) \<le> a" "a < 2 ^ nat (bitlen a)"
    by simp_all
  have ge: "1 \<le> bitlen a" using assms by (simp add: bitlen_alt_def)
  have "(of_int (2 ^ nat (bitlen a - 1)) :: rat) \<le> of_int a" using b(1) by (simp only: of_int_le_iff)
  then show "pow2 (bitlen a - 1) \<le> of_int a" using ge by (simp add: pow2_def)
  have "(of_int a :: rat) < of_int (2 ^ nat (bitlen a))" using b(2) by (simp only: of_int_less_iff)
  then show "of_int a < pow2 (bitlen a)" using ge by (simp add: pow2_def)
qed

lemma binexp_bounds:
  assumes "0 < q"
  shows "pow2 (binexp q) \<le> q" "q < pow2 (binexp q + 1)"
proof -
  obtain a b where ab: "quotient_of q = (a, b)" by (cases "quotient_of q")
  then have bp: "0 < b" by (rule quotient_of_denom_pos)
  from ab have q: "q = of_int a / of_int b" by (rule quotient_of_div)
  with assms bp have ap: "0 < a" by (simp add: zero_less_divide_iff)
  note A = bitlen_pow2[OF ap] and B = bitlen_pow2[OF bp]
  let ?e0 = "bitlen a - bitlen b"
  have bq: "(0::rat) < of_int b" using bp by simp
  have up: "q < pow2 (?e0 + 1)"
  proof -
    have "q < pow2 (bitlen a) / of_int b" unfolding q using A(2) bq by (simp add: divide_strict_right_mono)
    also have "\<dots> \<le> pow2 (bitlen a) / pow2 (bitlen b - 1)"
      using B(1) pow2_pos[of "bitlen a"] pow2_pos[of "bitlen b - 1"]
      by (simp add: frac_le)
    also have "\<dots> = pow2 (?e0 + 1)" by (simp add: pow2_diff[symmetric] algebra_simps)
    finally show ?thesis .
  qed
  have lo: "pow2 (?e0 - 1) \<le> q"
  proof -
    have "pow2 (?e0 - 1) = pow2 (bitlen a - 1) / pow2 (bitlen b)"
      by (simp add: pow2_diff[symmetric] algebra_simps)
    also have "\<dots> \<le> of_int a / pow2 (bitlen b)"
      using A(1) pow2_pos[of "bitlen b"] by (simp add: divide_right_mono)
    also have "\<dots> \<le> of_int a / of_int b"
      using B(2) bq ap by (simp add: frac_le)
    finally show ?thesis unfolding q .
  qed
  have e: "binexp q = (if pow2 ?e0 \<le> q then ?e0 else ?e0 - 1)"
    by (simp add: binexp_def ab Let_def)
  show "pow2 (binexp q) \<le> q" unfolding e using lo by simp
  show "q < pow2 (binexp q + 1)" unfolding e using up by auto
qed

lemma round_even_error: "\<bar>of_int (round_even m) - m\<bar> \<le> 1 / 2"
proof -
  have "of_int \<lfloor>m\<rfloor> \<le> m" "m < of_int \<lfloor>m\<rfloor> + 1" by linarith+
  then show ?thesis
    unfolding round_even_def Let_def by (auto simp: abs_le_iff)
qed

lemma fl_error:
  assumes "0 \<le> q"
  shows "\<bar>fl q - q\<bar> \<le> q / 9007199254740992"
proof (cases "q = 0")
  case True
  then show ?thesis by (simp add: fl_def)
next
  case False
  with assms have qp: "0 < q" by simp
  let ?u = "pow2 (binexp q - 52)"
  have up: "0 < ?u" by (rule pow2_pos)
  have u: "?u = pow2 (binexp q) / 4503599627370496"
    using pow2_add[of "binexp q" "- 52"] by (simp add: pow2_numeral)
  have ule: "?u \<le> q / 4503599627370496"
    unfolding u using binexp_bounds(1)[OF qp] by (simp add: divide_right_mono)
  have f: "fl q = of_int (round_even (q / ?u)) * ?u"
    using False by (simp add: fl_def Let_def)
  have "fl q - q = (of_int (round_even (q / ?u)) - q / ?u) * ?u"
    unfolding f using up by (simp add: algebra_simps)
  then have "\<bar>fl q - q\<bar> = \<bar>of_int (round_even (q / ?u)) - q / ?u\<bar> * ?u"
    using up by (simp add: abs_mult)
  also have "\<dots> \<le> (1 / 2) * ?u"
    using round_even_error[of "q / ?u"] up by (simp add: mult_right_mono)
  also have "\<dots> \<le> (1 / 2) * (q / 4503599627370496)"
    using ule by simp
  finally show ?thesis by simp
qed

lemma fl_twice_error:
  assumes "0 \<le> q" "q \<le> 1"
  shows "0 \<le> fl (fl q * 100)"
    and "\<bar>fl (fl q * 100) - 100 * q\<bar> \<le> 300 / 9007199254740992"
proof -
  define x where "x = fl q"
  define y where "y = fl (x * 100)"
  from fl_error[OF assms(1)] have ex: "x - q \<le> q / 9007199254740992"
    "- (x - q) \<le> q / 9007199254740992"
    unfolding x_def by (rule abs_le_D1, rule abs_le_D2)
  from ex(2) assms(1) have x0: "0 \<le> x" by linarith
  then have x100: "0 \<le> x * 100" by simp
  from fl_error[OF x100] have ey: "y - x * 100 \<le> x * 100 / 9007199254740992"
    "- (y - x * 100) \<le> x * 100 / 9007199254740992"
    unfolding y_def by (rule abs_le_D1, rule abs_le_D2)
  from ey(2) x0 have "0 \<le> y" by linarith
  then show "0 \<le> fl (fl q * 100)" unfolding y_def x_def .
  have "y - 100 * q \<le> 300 / 9007199254740992" using ex ey assms by linarith
  moreover have "- (y - 100 * q) \<le> 300 / 9007199254740992" using ex ey assms by linarith
  ultimately have "\<bar>y - 100 * q\<bar> \<le> 300 / 9007199254740992" by (rule abs_leI)
  then show "\<bar>fl (fl q * 100) - 100 * q\<bar> \<le> 300 / 9007199254740992"
    unfolding y_def x_def .
qed

lemma ratio_unit:
  assumes "0 < t" "c \<le> t"
  shows "0 \<le> (of_nat c / of_nat t :: rat)" "(of_nat c / of_nat t :: rat) \<le> 1"
proof -
  show "0 \<le> (of_nat c / of_nat t :: rat)" by simp
  have "(of_nat c :: rat) \<le> of_nat t" using assms(2) by (simp only: of_nat_le_iff)
  moreover have "(0::rat) < of_nat t" using assms(1) by simp
  ultimately show "(of_nat c / of_nat t :: rat) \<le> 1" by (simp add: divide_le_eq)
qed

lemma percent_of_floor:
  "0 < t \<Longrightarrow> percent_of c t = \<lfloor>fl (fl (of_nat c / of_nat t) * 100) + 1 / 2\<rfloor>"
  by (simp add: percent_of_def Math_round_def)

lemma percent_of_range:
  assumes "c \<le> t"
  shows "0 \<le> percent_of c t" "percent_of c t \<le> 100"
proof -
  show "0 \<le> percent_of c t"
  proof (cases "0 < t")
    case False
    then show ?thesis by (simp add: percent_of_def)
  next
    case True
    define y where "y = fl (fl (of_nat c / of_nat t) * 100)"
    from fl_twice_error(1)[OF ratio_unit[OF True assms]]
    have "0 \<le> y" unfolding y_def .
    then have "of_int 0 \<le> y + 1 / 2" by simp
    then have "0 \<le> \<lfloor>y + 1 / 2\<rfloor>" by (simp only: le_floor_iff)
    then show ?thesis unfolding percent_of_floor[OF True] y_def .
  qed
  show "percent_of c t \<le> 100"
  proof (cases "0 < t")
    case False
    then show ?thesis by (simp add: percent_of_def)
  next
    case True
    define q where "q = (of_nat c / of_nat t :: rat)"
    define y where "y = fl (fl q * 100)"
    note u = ratio_unit[OF True assms, folded q_def]
    from fl_twice_error(2)[OF u]
    have "y - 100 * q \<le> 300 / 9007199254740992" unfolding y_def by (rule abs_le_D1)
    with u(2) have "y + 1 / 2 < 101" by linarith
    then have "y + 1 / 2 < of_int 101" by simp
    then have "\<lfloor>y + 1 / 2\<rfloor> < 101" by (simp only: floor_less_iff)
    then have "\<lfloor>y + 1 / 2\<rfloor> \<le> 100" by simp
    then show ?thesis unfolding percent_of_floor[OF True] y_def q_def .
  qed
qed

lemma percent_of_nearest:
  assumes "0 < t" "c \<le> t" "t < 2 ^ 32"
  shows "\<bar>of_int (percent_of c t) - 100 * of_nat c / of_nat t\<bar> \<le> (1 / 2 :: rat)"
proof -
  define q where "q = (of_nat c / of_nat t :: rat)"
  define y where "y = fl (fl q * 100)"
  define P where "P = percent_of c t"
  note u = ratio_unit[OF assms(1,2), folded q_def]
  have P: "P = \<lfloor>y + 1 / 2\<rfloor>"
    unfolding P_def y_def q_def by (rule percent_of_floor[OF assms(1)])
  have fl1: "of_int P \<le> y + 1 / 2" "y + 1 / 2 < of_int P + 1"
    unfolding P by linarith+
  from fl_twice_error(2)[OF u]
  have e: "y - 100 * q \<le> 300 / 9007199254740992" "- (y - 100 * q) \<le> 300 / 9007199254740992"
    unfolding y_def by (rule abs_le_D1, rule abs_le_D2)
  have tp: "(0::rat) < of_nat t" using assms(1) by simp
  have qt: "q * of_nat t = of_nat c" unfolding q_def using tp by simp
  have tb: "(of_nat t :: rat) \<le> 4294967296"
  proof -
    from assms(3) have "t \<le> 4294967296" by simp
    then have "(of_nat t :: rat) \<le> of_nat 4294967296" by (simp only: of_nat_le_iff)
    then show ?thesis by simp
  qed
  have gap: "x \<le> 0" if "x * (2 * of_nat t) = of_int n" "x < 1 / 8589934592" for x :: rat and n :: int
  proof (rule ccontr)
    assume "\<not> x \<le> 0"
    then have xp: "0 < x" by simp
    from tp have "(0::rat) < 2 * of_nat t" by simp
    with xp have "0 < x * (2 * of_nat t)" by (rule mult_pos_pos)
    with that(1) have "(0::rat) < of_int n" by simp
    then have "1 \<le> n" by simp
    then have "(1::rat) \<le> of_int n" by simp
    with that(1) have "1 \<le> x * (2 * of_nat t)" by simp
    also have "\<dots> \<le> x * (2 * 4294967296)"
      by (rule mult_left_mono) (use xp tb in simp_all)
    finally show False using that(2) by simp
  qed
  have up: "100 * q - (of_int P + 1 / 2) \<le> 0"
  proof (rule gap)
    have "(100 * q - (of_int P + 1 / 2)) * (2 * of_nat t)
          = 200 * (q * of_nat t) - (2 * of_int P + 1) * of_nat t"
      by (simp add: algebra_simps)
    also have "\<dots> = of_int (200 * int c - (2 * P + 1) * int t)"
      unfolding qt by simp
    finally show "(100 * q - (of_int P + 1 / 2)) * (2 * of_nat t)
          = of_int (200 * int c - (2 * P + 1) * int t)" .
    show "100 * q - (of_int P + 1 / 2) < 1 / 8589934592" using fl1 e by linarith
  qed
  have lo: "(of_int P - 1 / 2) - 100 * q \<le> 0"
  proof (rule gap)
    have "((of_int P - 1 / 2) - 100 * q) * (2 * of_nat t)
          = (2 * of_int P - 1) * of_nat t - 200 * (q * of_nat t)"
      by (simp add: algebra_simps)
    also have "\<dots> = of_int ((2 * P - 1) * int t - 200 * int c)"
      unfolding qt by simp
    finally show "((of_int P - 1 / 2) - 100 * q) * (2 * of_nat t)
          = of_int ((2 * P - 1) * int t - 200 * int c)" .
    show "(of_int P - 1 / 2) - 100 * q < 1 / 8589934592" using fl1 e by linarith
  qed
  have "of_int P - 100 * q \<le> 1 / 2" using lo by linarith
  moreover have "- (of_int P - 100 * q) \<le> 1 / 2" using up by linarith
  ultimately have "\<bar>of_int P - 100 * q\<bar> \<le> 1 / 2" by (rule abs_leI)
  then show ?thesis unfolding P_def q_def by simp
qed

subsection \<open>Every snapshot carries the guarded percent\<close>

lemma well_formed_snapshot [simp]: "well_formed (snapshot l s)"
  by (simp add: well_formed_def snapshot_def)

lemma percented_step:
  assumes r: "percented s"
  shows "percented (step s e)"
proof (cases rule: step_cases[of e s])
  case (Stop l)
  with r show ?thesis by (auto simp: percented_def)
next
  case (Detect rp)
  let ?d = "detectMyIp_end rp (s\<lparr>now := fst e\<rparr>)"
  have em: "emitted (step s e)
      = emitted s @ [snapshot None ?d]
        @ (if phase (step s e) = Finished then [snapshot None (step s e)] else [])"
    using Detect(3) emitted_start_workers[of ?d] by simp
  show ?thesis using r unfolding percented_def em by simp
next
  case (Anon i rp p t0)
  with r show ?thesis by (auto simp: percented_def)
next
  case (Complete i rp res l)
  let ?s0 = "s\<lparr>now := fst e, logs := l\<rparr>"
  have em: "emitted (step s e)
      = emitted s @ [snapshot (Some res) (record_result res ?s0)]
        @ (if phase (step s e) = Finished then [snapshot None (step s e)] else [])"
    using Complete(2,4) emitted_continue[of i res ?s0] by simp
  show ?thesis using r unfolding percented_def em by simp
next
  case Skip
  with r show ?thesis by simp
next
  case Tick
  with r show ?thesis by (auto simp: percented_def)
qed

lemma percented_checkAll: "percented (checkAll (new_ProxyChecker opts) ps t0)"
proof (cases "opt_checkAnonymity opts")
  case True
  then show ?thesis
    by (simp add: checkAll_cases Let_def percented_def new_ProxyChecker_def)
next
  case False
  let ?s6 = "addLog (LogCheckAnonymity (opt_checkAnonymity opts))
                (addLog (LogDeleteDead (opt_deleteDead opts))
                 (addLog (LogUrl (opt_testUrl opts))
                  (addLog (LogThreads (opt_threads opts) (opt_timeout opts))
                   (addLog (LogStart (length ps))
                     ((new_ProxyChecker opts)\<lparr>now := t0, proxies := ps, stopped := False, checked := 0,
                         working := 0, dead := 0, total := length ps, logs := [], deadIds := []\<rparr>)))))"
  have eq: "checkAll (new_ProxyChecker opts) ps t0 = start_workers ?s6"
    using False by (simp add: checkAll_cases Let_def new_ProxyChecker_def)
  have em: "emitted ?s6 = []" by (simp add: new_ProxyChecker_def)
  show ?thesis unfolding eq percented_def emitted_start_workers em by simp
qed

lemma percented_foldl: "percented s \<Longrightarrow> percented (foldl step s evs)"
  by (induction evs arbitrary: s) (simp_all add: percented_step)

lemma percented_run: "percented (run opts ps t0 evs)"
  by (simp add: run_def percented_foldl percented_checkAll)

text \<open>
  C10. Every snapshot emitted by a run computes its \<open>percent\<close> from the counters it
  carries with the guarded expression of \<^verbatim>\<open>emitProgress\<close>: the percent is 0 when the total
  is 0, so that a run over an empty list emits only snapshots whose percent is 0; and
  since a snapshot's \<open>checked\<close> never exceeds its \<open>total\<close>, the percent lies between 0 and
  100. The percent is computed in double precision as \<open>(checked / total) * 100\<close>, rounded
  twice before \<^verbatim>\<open>Math.round\<close>: for \<open>checked \<le> total\<close> and a total below \<open>2 ^ 32\<close> it is an integer nearest to
  \<open>100 \<cdot> checked / total\<close>, at most one half away from it.
\<close>

theorem percent_guarded:
  "percent_of c 0 = 0
   \<and> (c \<le> t \<longrightarrow> 0 \<le> percent_of c t \<and> percent_of c t \<le> 100)
   \<and> (0 < t \<and> c \<le> t \<and> t < 2 ^ 32
        \<longrightarrow> \<bar>of_int (percent_of c t) - 100 * of_nat c / of_nat t\<bar> \<le> (1 / 2 :: rat))
   \<and> (\<forall>p \<in> set (emitted (run opts ps t0 evs)).
         p_percent p = percent_of (p_checked p) (p_total p)
         \<and> p_checked p \<le> p_total p \<and> 0 \<le> p_percent p \<and> p_percent p \<le> 100)
   \<and> (ps = [] \<longrightarrow> (\<forall>p \<in> set (emitted (run opts ps t0 evs)). p_percent p = 0))"
proof -
  let ?s = "run opts ps t0 evs"
  have 1: "percent_of c 0 = 0" by (simp add: percent_of_def)
  have 2: "0 \<le> percent_of c t \<and> percent_of c t \<le> 100" if "c \<le> t"
    using percent_of_range[OF that] by simp
  have 3: "\<bar>of_int (percent_of c t) - 100 * of_nat c / of_nat t\<bar> \<le> (1 / 2 :: rat)"
    if "0 < t \<and> c \<le> t \<and> t < 2 ^ 32"
    using that percent_of_nearest[of t c] by blast
  have w: "\<forall>p \<in> set (emitted ?s). well_formed p"
    using percented_run[of opts ps t0 evs] unfolding percented_def list_all_iff .
  have "\<forall>p \<in> set (emitted ?s). sums_up (total ?s) p"
    using reported_run[of opts ps t0 evs] unfolding reported_def by blast
  moreover have "total ?s = length ps" by simp
  ultimately have le: "\<forall>p \<in> set (emitted ?s). p_checked p \<le> p_total p \<and> p_total p = length ps"
    unfolding sums_up_def by metis
  have 4: "\<forall>p \<in> set (emitted ?s).
         p_percent p = percent_of (p_checked p) (p_total p)
         \<and> p_checked p \<le> p_total p \<and> 0 \<le> p_percent p \<and> p_percent p \<le> 100"
  proof
    fix p assume p: "p \<in> set (emitted ?s)"
    with w have e: "p_percent p = percent_of (p_checked p) (p_total p)"
      unfolding well_formed_def by blast
    from p le have l: "p_checked p \<le> p_total p" by blast
    from percent_of_range[OF l] e l
    show "p_percent p = percent_of (p_checked p) (p_total p)
         \<and> p_checked p \<le> p_total p \<and> 0 \<le> p_percent p \<and> p_percent p \<le> 100"
      by simp
  qed
  have 5: "\<forall>p \<in> set (emitted ?s). p_percent p = 0" if "ps = []"
  proof
    fix p assume p: "p \<in> set (emitted ?s)"
    with w have e: "p_percent p = percent_of (p_checked p) (p_total p)"
      unfolding well_formed_def by blast
    from p le that have "p_total p = 0" by auto
    with e show "p_percent p = 0" by (simp add: percent_of_def)
  qed
  from 1 2 3 4 5 show ?thesis by blast
qed

theorem percent_guarded_witness:
  "(23::nat) \<le> 40 \<and> (0::nat) < 40 \<and> (40::nat) < 2 ^ 32
   \<and> 0 \<le> percent_of 23 40 \<and> percent_of 23 40 \<le> 100
   \<and> \<bar>of_int (percent_of 23 40) - 100 * of_nat 23 / of_nat 40\<bar> \<le> (1 / 2 :: rat)
   \<and> emitted (run sample_plain [] 0 []) \<noteq> []
   \<and> list_all (\<lambda>p. p_percent p = 0) (emitted (run sample_plain [] 0 []))"
proof -
  note h = sample_empty_run[unfolded Let_def]
  note t = percent_guarded[of 23 40 sample_plain "[]" 0 "[]"]
  have a: "emitted (run sample_plain [] 0 []) \<noteq> []" using h by auto
  have b: "list_all (\<lambda>p. p_percent p = 0) (emitted (run sample_plain [] 0 []))"
    unfolding list_all_iff using t by blast
  have c: "0 \<le> percent_of 23 40 \<and> percent_of 23 40 \<le> 100
     \<and> \<bar>of_int (percent_of 23 40) - 100 * of_nat 23 / of_nat 40\<bar> \<le> (1 / 2 :: rat)"
    using t by simp
  from a b c show ?thesis by simp
qed

text \<open>
  With 23 of 40 endpoints checked the exact value \<open>100 \<cdot> 23 / 40\<close> is 57.5, which rounds
  to 58; the code divides first, and the double nearest to 0.575 times 100 is just below
  57.5, so that the snapshot shows 57.
\<close>

theorem percent_rounding_counterexample:
  "percent_of 23 40 = 57 \<and> Math_round (100 * of_nat 23 / of_nat 40) = 58"
  by code_simp

end
